theory Spec2Isabelle
  imports Main
begin

section \<open>Strings, positions and JavaScript containers\<close>

text \<open>
  JavaScript strings are modelled as \<open>string\<close> (a list of characters) and restricted to
  ASCII: \<open>toUpperCase\<close> maps \<open>a\<close>..\<open>z\<close> to \<open>A\<close>..\<open>Z\<close> and leaves every other
  character alone, \<open>trim\<close> removes the ASCII white space characters at both ends.
  Numbers that hold rows, columns and lengths are integers.
\<close>

definition toUpperChar :: "char \<Rightarrow> char" where
  "toUpperChar c =
     (let n = (of_char c :: nat) in if 97 \<le> n \<and> n \<le> 122 then char_of (n - 32) else c)"

definition toUpperCase :: "string \<Rightarrow> string" where
  "toUpperCase s = map toUpperChar s"

definition isSpace :: "char \<Rightarrow> bool" where
  "isSpace c = (of_char c \<in> {9, 10, 11, 12, 13, 32 :: nat})"

definition trim :: "string \<Rightarrow> string" where
  "trim s = rev (dropWhile isSpace (rev (dropWhile isSpace s)))"

text \<open>\<open>text.split('\n')\<close>: the pieces between line feeds, always at least one piece.\<close>

fun splitLines :: "string \<Rightarrow> string list" where
  "splitLines [] = [[]]"
| "splitLines (c # cs) =
     (if c = CHR 0x0A then [] # splitLines cs
      else (c # hd (splitLines cs)) # tl (splitLines cs))"

text \<open>
  A grid position \<open>[row, col]\<close>. The source keys its sets of positions by the string
  \<open>`${row},${col}`\<close>, which determines the pair of integers and is determined by it, so the
  model keys them by the pair.
\<close>

type_synonym pos = "int \<times> int"

text \<open>
  A JavaScript \<open>Set\<close> keeps its members in insertion order without repetition:
  \<open>add\<close> appends a member that is not there yet, \<open>delete\<close> removes it, \<open>size\<close> is
  the length.
\<close>

definition setAdd :: "'a \<Rightarrow> 'a list \<Rightarrow> 'a list" where
  "setAdd k xs = (if k \<in> set xs then xs else xs @ [k])"

definition setDelete :: "'a \<Rightarrow> 'a list \<Rightarrow> 'a list" where
  "setDelete k xs = removeAll k xs"

text \<open>
  A JavaScript \<open>Map\<close> keeps its entries in the order in which their keys were first set;
  setting an existing key replaces the value in place.
\<close>

fun mapSet :: "'k \<Rightarrow> 'v \<Rightarrow> ('k \<times> 'v) list \<Rightarrow> ('k \<times> 'v) list" where
  "mapSet k v [] = [(k, v)]"
| "mapSet k v ((k', v') # m) = (if k' = k then (k, v) # m else (k', v') # mapSet k v m)"

datatype error = TypeError

section \<open>Word list loading (\<open>loadWordList\<close>)\<close>

text \<open>
  The body of \<open>loadWordList\<close> after the fetch: the text is split at line feeds, every
  line is trimmed and uppercased, and the word is added to the set when its length is at
  least 4. The argument is the text of the response.
\<close>

definition addLine :: "string list \<Rightarrow> string \<Rightarrow> string list" where
  "addLine wordSet line =
     (let word = toUpperCase (trim line)
      in if length word \<ge> 4 then setAdd word wordSet else wordSet)"

definition loadWordList :: "string \<Rightarrow> string list" where
  "loadWordList text = foldl addLine [] (splitLines text)"

section \<open>The prefix tree\<close>

text \<open>
  The trie is a nest of JavaScript objects whose keys are single characters; the key
  \<open>$\<close> holds \<open>true\<close> at the end of a word. A value stored under a key is therefore
  an object or \<open>true\<close>, and both are truthy. Reading a property of \<open>true\<close> gives
  \<open>undefined\<close>; creating one raises a TypeError, since the module is strict code.
\<close>

datatype jsval = JTrue | JObj "(char \<times> jsval) list"

fun getProp :: "jsval \<Rightarrow> char \<Rightarrow> jsval option" where
  "getProp JTrue k = None"
| "getProp (JObj kvs) k = map_of kvs k"

fun setProp :: "jsval \<Rightarrow> char \<Rightarrow> jsval \<Rightarrow> error + jsval" where
  "setProp JTrue k v = Inl TypeError"
| "setProp (JObj kvs) k v = Inr (JObj (mapSet k v kvs))"

text \<open>
  The inner loop of \<open>buildPrefixTree\<close> for one word, from the node \<open>current\<close>;
  the result is that node after the mutation.
\<close>

fun insertWord :: "jsval \<Rightarrow> string \<Rightarrow> error + jsval" where
  "insertWord current [] = setProp current (CHR ''$'') JTrue"
| "insertWord current (letter # rest) =
     (case (case getProp current letter of
              None \<Rightarrow> setProp current letter (JObj [])
            | Some _ \<Rightarrow> Inr current) of
        Inl e \<Rightarrow> Inl e
      | Inr current1 \<Rightarrow>
          (case getProp current1 letter of
             None \<Rightarrow> Inl TypeError
           | Some child \<Rightarrow>
               (case insertWord child rest of
                  Inl e \<Rightarrow> Inl e
                | Inr child' \<Rightarrow> setProp current1 letter child')))"

fun insertWords :: "jsval \<Rightarrow> string list \<Rightarrow> error + jsval" where
  "insertWords trie [] = Inr trie"
| "insertWords trie (word # ws) =
     (case insertWord trie word of Inl e \<Rightarrow> Inl e | Inr trie' \<Rightarrow> insertWords trie' ws)"

definition buildPrefixTree :: "string list \<Rightarrow> error + jsval" where
  "buildPrefixTree wordSet = insertWords (JObj []) wordSet"

fun walkPrefix :: "jsval \<Rightarrow> string \<Rightarrow> bool" where
  "walkPrefix current [] = True"
| "walkPrefix current (letter # rest) =
     (case getProp current letter of None \<Rightarrow> False | Some child \<Rightarrow> walkPrefix child rest)"

section \<open>The solver object\<close>

record Solver =
  grid :: "string list list"
  wordSet :: "string list"
  prefixTree :: jsval
  rows :: int
  cols :: int

text \<open>
  The constructor reads \<open>grid[0].length\<close>, which raises on a grid without rows, and
  builds the trie of the word set.
\<close>

definition newSolver :: "string list list \<Rightarrow> string list \<Rightarrow> error + Solver" where
  "newSolver g ws =
     (case buildPrefixTree ws of
        Inl e \<Rightarrow> Inl e
      | Inr t \<Rightarrow>
          (case g of
             [] \<Rightarrow> Inl TypeError
           | row0 # _ \<Rightarrow>
               Inr \<lparr>grid = g, wordSet = ws, prefixTree = t,
                    rows = int (length g), cols = int (length row0)\<rparr>))"

definition hasPrefix :: "Solver \<Rightarrow> string \<Rightarrow> bool" where
  "hasPrefix S prefix = walkPrefix (prefixTree S) prefix"

text \<open>Exact membership is the \<open>has\<close> of the word set.\<close>

definition contains :: "Solver \<Rightarrow> string \<Rightarrow> bool" where
  "contains S w = (w \<in> set (wordSet S))"

text \<open>
  \<open>grid[r][c]\<close>: \<open>None\<close> where JavaScript yields \<open>undefined\<close> or raises because the
  row itself is \<open>undefined\<close>; calling \<open>toUpperCase\<close> on it raises a TypeError either way.
\<close>

definition cellAt :: "string list list \<Rightarrow> int \<Rightarrow> int \<Rightarrow> string option" where
  "cellAt g r c =
     (if 0 \<le> r \<and> r < int (length g)
      then (if 0 \<le> c \<and> c < int (length (g ! nat r)) then Some (g ! nat r ! nat c) else None)
      else None)"

section \<open>The word enumerator (\<open>findWordsDFS\<close>)\<close>

definition directions :: "(int \<times> int) list" where
  "directions = [(-1, -1), (-1, 0), (-1, 1), (0, -1), (0, 1), (1, -1), (1, 0), (1, 1)]"

text \<open>The variables that the closure \<open>dfs\<close> captures and never changes.\<close>

record dfsEnv =
  this :: Solver
  usedPos :: "pos set"
  blacklistedWords :: "string set"
  minLength :: int
  maxLength :: int

type_synonym uniqueMap = "(string \<times> pos list) list"

text \<open>The first statement of \<open>dfs\<close>: record the current word when it qualifies.\<close>

definition recordWord :: "dfsEnv \<Rightarrow> string \<Rightarrow> pos list \<Rightarrow> uniqueMap \<Rightarrow> uniqueMap" where
  "recordWord E currentWord currentPath uniqueWords =
     (if int (length currentWord) \<ge> minLength E
         \<and> currentWord \<in> set (wordSet (this E))
         \<and> currentWord \<notin> blacklistedWords E
      then (case map_of uniqueWords currentWord of
              None \<Rightarrow> mapSet currentWord currentPath uniqueWords
            | Some old \<Rightarrow>
                if length currentPath > length old
                then mapSet currentWord currentPath uniqueWords else uniqueWords)
      else uniqueWords)"

definition unvisited :: "dfsEnv \<Rightarrow> pos set \<Rightarrow> nat" where
  "unvisited E visited = card (({0..<rows (this E)} \<times> {0..<cols (this E)}) - visited)"

text \<open>
  The three guards of the loop body that \<open>continue\<close> with the next direction: the
  bounds check, the visited check and the check against the positions of the set words,
  in the order of the source.
\<close>

definition skipCell :: "dfsEnv \<Rightarrow> pos set \<Rightarrow> int \<Rightarrow> int \<Rightarrow> bool" where
  "skipCell E visited newRow newCol =
     (if newRow < 0 \<or> newRow \<ge> rows (this E) \<or> newCol < 0 \<or> newCol \<ge> cols (this E)
      then True
      else if (newRow, newCol) \<in> visited then True
      else if (newRow, newCol) \<in> usedPos E then True
      else False)"

lemma unvisited_insert:
  assumes "\<not> skipCell E visited r c"
  shows "unvisited E (insert (r, c) visited) < unvisited E visited"
proof -
  let ?A = "({0..<rows (this E)} \<times> {0..<cols (this E)}) - visited"
  let ?B = "({0..<rows (this E)} \<times> {0..<cols (this E)}) - insert (r, c) visited"
  have fin: "finite ?A" by simp
  from assms have "0 \<le> r" "r < rows (this E)" "0 \<le> c" "c < cols (this E)" "(r, c) \<notin> visited"
    unfolding skipCell_def by (simp_all split: if_splits)
  then have mem: "(r, c) \<in> ?A" by simp
  have "?B \<subset> ?A" using mem by blast
  then have "card ?B < card ?A" using fin by (rule psubset_card_mono [rotated])
  then show ?thesis unfolding unvisited_def .
qed

text \<open>
  \<open>dfs\<close> and its loop over the eight directions. \<open>uniqueWords\<close> is the state that
  the closure mutates. \<open>visited\<close> is passed down: the source adds the new key before the
  recursive call and deletes it after, and the key was not in the set before, so the
  caller's set is the same before and after each iteration.
\<close>

function dfs :: "dfsEnv \<Rightarrow> int \<Rightarrow> int \<Rightarrow> string \<Rightarrow> pos list \<Rightarrow> pos set \<Rightarrow> uniqueMap
                  \<Rightarrow> error + uniqueMap"
  and dfsDirs :: "dfsEnv \<Rightarrow> (int \<times> int) list \<Rightarrow> int \<Rightarrow> int \<Rightarrow> string \<Rightarrow> pos list \<Rightarrow> pos set
                  \<Rightarrow> uniqueMap \<Rightarrow> error + uniqueMap"
  where
  "dfs E row col currentWord currentPath visited uniqueWords =
     (let uw = recordWord E currentWord currentPath uniqueWords
      in if int (length currentWord) \<ge> maxLength E then Inr uw
         else if \<not> hasPrefix (this E) currentWord then Inr uw
         else dfsDirs E directions row col currentWord currentPath visited uw)"
| "dfsDirs E [] row col currentWord currentPath visited uniqueWords = Inr uniqueWords"
| "dfsDirs E (d # ds) row col currentWord currentPath visited uniqueWords =
     (let newRow = row + fst d; newCol = col + snd d
      in if skipCell E visited newRow newCol
         then dfsDirs E ds row col currentWord currentPath visited uniqueWords
         else (case cellAt (grid (this E)) newRow newCol of
                 None \<Rightarrow> Inl TypeError
               | Some cell \<Rightarrow>
                   (case dfs E newRow newCol (currentWord @ toUpperCase cell)
                           (currentPath @ [(newRow, newCol)])
                           (insert (newRow, newCol) visited) uniqueWords of
                      Inl e \<Rightarrow> Inl e
                    | Inr uw \<Rightarrow> dfsDirs E ds row col currentWord currentPath visited uw)))"
  by pat_completeness auto
termination
proof (relation "inv_image (less_than <*lex*> less_than)
    (\<lambda>x. case x of
            Inl a \<Rightarrow> (unvisited (fst a) (fst (snd (snd (snd (snd (snd a)))))), 9)
          | Inr b \<Rightarrow> (unvisited (fst b) (fst (snd (snd (snd (snd (snd (snd b))))))),
                      length (fst (snd b))))",
    goal_cases)
  case 1
  show ?case by (rule wf_inv_image) (rule wf_lex_prod; rule wf_less_than)
next
  case 2
  show ?case by (simp add: directions_def)
next
  case 3
  show ?case by simp
next
  case (4 E d ds row col currentWord currentPath visited uniqueWords newRow newCol cell)
  then show ?case by (simp add: unvisited_insert)
next
  case 5
  show ?case by simp
qed

text \<open>
  \<open>result.sort((a, b) => b[0].length - a[0].length)\<close>: \<open>Array.prototype.sort\<close> is
  stable, as is the insertion sort \<open>sort_key\<close>.
\<close>

definition sortByLength :: "uniqueMap \<Rightarrow> uniqueMap" where
  "sortByLength result = sort_key (\<lambda>e. - int (length (fst e))) result"

definition findWordsDFS ::
  "Solver \<Rightarrow> int \<Rightarrow> int \<Rightarrow> pos set \<Rightarrow> string set \<Rightarrow> int \<Rightarrow> int \<Rightarrow> error + uniqueMap" where
  "findWordsDFS S startRow startCol usedPositions blacklisted minLen maxLen =
     (if startRow < 0 \<or> startRow \<ge> rows S \<or> startCol < 0 \<or> startCol \<ge> cols S then Inr []
      else if (startRow, startCol) \<in> usedPositions then Inr []
      else (case cellAt (grid S) startRow startCol of
              None \<Rightarrow> Inl TypeError
            | Some cell \<Rightarrow>
                (case dfs \<lparr>this = S, usedPos = usedPositions, blacklistedWords = blacklisted,
                           minLength = minLen, maxLength = maxLen\<rparr>
                        startRow startCol (toUpperCase cell) [(startRow, startCol)]
                        {(startRow, startCol)} [] of
                   Inl e \<Rightarrow> Inl e
                 | Inr uniqueWords \<Rightarrow> Inr (sortByLength uniqueWords))))"

section \<open>The tiling solver (\<open>solvePuzzle\<close>)\<close>

type_synonym placement = "(string \<times> pos list) list"

text \<open>
  An entry of \<open>allWords\<close> is \<open>[word, coords, length]\<close>; an entry of
  \<open>prioritizedWords\<close> is \<open>{word, coords, length, positionScore, priority}\<close>.
\<close>

type_synonym poolEntry = "string \<times> pos list \<times> int"
type_synonym prioritized = "string \<times> pos list \<times> int \<times> int \<times> int"

definition cellScore :: "Solver \<Rightarrow> pos \<Rightarrow> int" where
  "cellScore S p =
     (let row = fst p; col = snd p
      in if (row = 0 \<or> row = rows S - 1) \<and> (col = 0 \<or> col = cols S - 1) then 4
         else if row = 0 \<or> row = rows S - 1 \<or> col = 0 \<or> col = cols S - 1 then 2
         else 1)"

definition positionScoreOf :: "Solver \<Rightarrow> pos list \<Rightarrow> int" where
  "positionScoreOf S coords = foldl (\<lambda>positionScore p. positionScore + cellScore S p) 0 coords"

definition prioritize :: "Solver \<Rightarrow> poolEntry \<Rightarrow> prioritized" where
  "prioritize S e =
     (case e of (word, coords, len) \<Rightarrow>
        (word, coords, len, positionScoreOf S coords, - len * 1000 - positionScoreOf S coords))"

definition priorityOf :: "prioritized \<Rightarrow> int" where
  "priorityOf e = snd (snd (snd (snd e)))"

text \<open>\<open>.sort((a, b) => a.priority - b.priority)\<close>, a stable ascending sort.\<close>

definition prioritizeWords :: "Solver \<Rightarrow> poolEntry list \<Rightarrow> prioritized list" where
  "prioritizeWords S allWords = sort_key priorityOf (map (prioritize S) allWords)"

text \<open>
  The variables that \<open>solveRecursive\<close> mutates. \<open>progressLog\<close> stands for the
  progress hook: one entry \<open>(attempts, currentSolution.length, coverage)\<close> per call of
  \<open>onProgress\<close>, in the order of the calls. The hook receives the coverage as the
  percentage \<open>coverage / totalPositions * 100\<close>; the log keeps the count \<open>coverage\<close>
  itself, of which the percentage is a monotone function.
\<close>

record solveState =
  usedPositions :: "pos list"
  currentSolution :: placement
  attempts :: int
  bestSolution :: placement
  bestCoverage :: nat
  progressLog :: "(int \<times> nat \<times> nat) list"

text \<open>
  What \<open>solveRecursive\<close> reads and never changes. The cancel hook is a function of the
  number of attempts at the poll: the polls of one solve happen at distinct, increasing
  attempt counts, so this covers every sequence of answers.
\<close>

record solveEnv =
  prioritizedWords :: "prioritized list"
  totalPositions :: int
  shouldCancel :: "int \<Rightarrow> bool"
  maxAttempts :: int

definition canPlaceWord :: "pos list \<Rightarrow> solveState \<Rightarrow> bool" where
  "canPlaceWord coords s = (\<forall>p \<in> set coords. p \<notin> set (usedPositions s))"

definition placeWord :: "string \<Rightarrow> pos list \<Rightarrow> solveState \<Rightarrow> solveState" where
  "placeWord word coords s =
     s\<lparr>usedPositions := foldl (\<lambda>used p. setAdd p used) (usedPositions s) coords,
       currentSolution := currentSolution s @ [(word, coords)]\<rparr>"

text \<open>\<open>currentSolution.pop()\<close> of an empty array is \<open>undefined\<close>, and destructuring it raises.\<close>

definition removeWord :: "solveState \<Rightarrow> solveState option" where
  "removeWord s =
     (case rev (currentSolution s) of
        [] \<Rightarrow> None
      | (word, coords) # rest \<Rightarrow>
          Some (s\<lparr>currentSolution := rev rest,
                  usedPositions := foldl (\<lambda>used p. setDelete p used) (usedPositions s) coords\<rparr>))"

text \<open>The block that runs when \<open>attempts % 1000 === 0\<close>, up to the call of the cancel hook.\<close>

definition pollProgress :: "solveState \<Rightarrow> solveState" where
  "pollProgress s =
     (let coverage = length (usedPositions s);
          s1 = (if coverage > bestCoverage s
                then s\<lparr>bestCoverage := coverage, bestSolution := currentSolution s\<rparr> else s)
      in s1\<lparr>progressLog := progressLog s1 @ [(attempts s, length (currentSolution s), coverage)]\<rparr>)"

text \<open>
  \<open>solveRecursive\<close> and its loop over the remaining words. The result is \<open>None\<close>
  when the source raises, otherwise the returned flag and the state after the call.
\<close>

function solveRecursive :: "solveEnv \<Rightarrow> nat \<Rightarrow> solveState \<Rightarrow> (bool \<times> solveState) option"
  and tryWords :: "solveEnv \<Rightarrow> nat \<Rightarrow> solveState \<Rightarrow> (bool \<times> solveState) option"
  where
  "solveRecursive C wordIndex s =
     (let s1 = s\<lparr>attempts := attempts s + 1\<rparr>;
          s2 = (if attempts s1 mod 1000 = 0 then pollProgress s1 else s1)
      in if attempts s1 mod 1000 = 0 \<and> shouldCancel C (attempts s1) then Some (False, s2)
         else if int (length (usedPositions s2)) = totalPositions C then Some (True, s2)
         else if attempts s2 > maxAttempts C then Some (False, s2)
         else tryWords C wordIndex s2)"
| "tryWords C i s =
     (if i < length (prioritizedWords C)
      then (let word = fst (prioritizedWords C ! i); coords = fst (snd (prioritizedWords C ! i))
            in if canPlaceWord coords s
               then (case solveRecursive C (i + 1) (placeWord word coords s) of
                       None \<Rightarrow> None
                     | Some (r, s') \<Rightarrow>
                         if r then Some (True, s')
                         else (case removeWord s' of
                                 None \<Rightarrow> None
                               | Some s'' \<Rightarrow> tryWords C (i + 1) s''))
               else tryWords C (i + 1) s)
      else Some (False, s))"
  by pat_completeness auto
termination
  by (relation "measure (\<lambda>x. case x of
        Inl a \<Rightarrow> 2 * (length (prioritizedWords (fst a)) - fst (snd a)) + 1
      | Inr b \<Rightarrow> 2 * (length (prioritizedWords (fst b)) - fst (snd b)))") auto

text \<open>The state before the first call: the existing words are placed one by one.\<close>

definition addExisting :: "solveState \<Rightarrow> string \<times> pos list \<Rightarrow> solveState" where
  "addExisting s e =
     s\<lparr>currentSolution := currentSolution s @ [(fst e, snd e)],
       usedPositions := foldl (\<lambda>used p. setAdd p used) (usedPositions s) (snd e)\<rparr>"

definition initialState :: "placement \<Rightarrow> solveState" where
  "initialState existingWords =
     (let s = foldl addExisting
                \<lparr>usedPositions = [], currentSolution = [], attempts = 0, bestSolution = [],
                 bestCoverage = 0, progressLog = []\<rparr> existingWords
      in s\<lparr>bestCoverage := length (usedPositions s)\<rparr>)"

definition solveEnvOf :: "Solver \<Rightarrow> poolEntry list \<Rightarrow> (int \<Rightarrow> bool) \<Rightarrow> int \<Rightarrow> solveEnv" where
  "solveEnvOf S allWords cancel maxAtt =
     \<lparr>prioritizedWords = prioritizeWords S allWords, totalPositions = rows S * cols S,
      shouldCancel = cancel, maxAttempts = maxAtt\<rparr>"

text \<open>The run of \<open>solveRecursive(0)\<close> inside \<open>solvePuzzle\<close>.\<close>

definition solveRun ::
  "Solver \<Rightarrow> poolEntry list \<Rightarrow> placement \<Rightarrow> (int \<Rightarrow> bool) \<Rightarrow> int
     \<Rightarrow> (bool \<times> solveState) option" where
  "solveRun S allWords existingWords cancel maxAtt =
     solveRecursive (solveEnvOf S allWords cancel maxAtt) 0 (initialState existingWords)"

text \<open>
  The value that \<open>solvePuzzle\<close> returns: \<open>Inr None\<close> is \<open>null\<close>, \<open>Inl\<close> a raised
  error.
\<close>

definition solvePuzzle ::
  "Solver \<Rightarrow> poolEntry list \<Rightarrow> placement \<Rightarrow> (int \<Rightarrow> bool) \<Rightarrow> int
     \<Rightarrow> error + placement option" where
  "solvePuzzle S allWords existingWords cancel maxAtt =
     (case solveRun S allWords existingWords cancel maxAtt of
        None \<Rightarrow> Inl TypeError
      | Some (completeSolution, s) \<Rightarrow>
          Inr (if completeSolution then Some (currentSolution s)
               else if length (bestSolution s) > 0 then Some (bestSolution s)
               else if length existingWords > 0 then Some existingWords else None))"

text \<open>The progress callbacks of one call of \<open>solvePuzzle\<close>, in order.\<close>

definition progressCalls ::
  "Solver \<Rightarrow> poolEntry list \<Rightarrow> placement \<Rightarrow> (int \<Rightarrow> bool) \<Rightarrow> int
     \<Rightarrow> (int \<times> nat \<times> nat) list" where
  "progressCalls S allWords existingWords cancel maxAtt =
     (case solveRun S allWords existingWords cancel maxAtt of
        None \<Rightarrow> []
      | Some (completeSolution, s) \<Rightarrow> progressLog s)"

section \<open>Vocabulary of the properties\<close>

text \<open>The grid with every cell uppercased, and a solver holding it.\<close>

definition upperGrid :: "string list list \<Rightarrow> string list list" where
  "upperGrid g = map (map toUpperCase) g"

definition withUpperGrid :: "Solver \<Rightarrow> Solver" where
  "withUpperGrid S = S\<lparr>grid := upperGrid (grid S)\<rparr>"

text \<open>
  Paths: two cells are 8-neighbours when they differ by at most one in each coordinate and
  are not equal; \<open>path8\<close> holds when consecutive cells are 8-neighbours;
  \<open>pathWord\<close> is the concatenation of the grid's cells along a path, \<open>None\<close> when a
  cell of the path is not on the grid. \<open>singleLetterCells\<close> and \<open>uppercaseCells\<close>
  say of a grid what the data model says of a Letter: one character, and uppercase.
\<close>

definition adjacent8 :: "pos \<Rightarrow> pos \<Rightarrow> bool" where
  "adjacent8 a b = (\<bar>fst b - fst a\<bar> \<le> 1 \<and> \<bar>snd b - snd a\<bar> \<le> 1 \<and> a \<noteq> b)"

fun path8 :: "pos list \<Rightarrow> bool" where
  "path8 (a # b # r) = (adjacent8 a b \<and> path8 (b # r))"
| "path8 p = True"

fun pathWord :: "string list list \<Rightarrow> pos list \<Rightarrow> string option" where
  "pathWord g [] = Some []"
| "pathWord g (q # qs) =
     (case cellAt g (fst q) (snd q) of
        None \<Rightarrow> None
      | Some cell \<Rightarrow> (case pathWord g qs of None \<Rightarrow> None | Some w \<Rightarrow> Some (cell @ w)))"

definition singleLetterCells :: "string list list \<Rightarrow> bool" where
  "singleLetterCells g = (\<forall>row \<in> set g. \<forall>cell \<in> set row. length cell = 1)"

definition uppercaseCells :: "string list list \<Rightarrow> bool" where
  "uppercaseCells g = (\<forall>row \<in> set g. \<forall>cell \<in> set row. toUpperCase cell = cell)"

definition validCandidate :: "dfsEnv \<Rightarrow> pos \<Rightarrow> string \<times> pos list \<Rightarrow> bool" where
  "validCandidate E start e =
     (snd e \<noteq> [] \<and> hd (snd e) = start \<and> path8 (snd e) \<and> distinct (snd e)
      \<and> set (snd e) \<inter> usedPos E = {}
      \<and> minLength E \<le> int (length (fst e))
      \<and> fst e \<in> set (wordSet (this E)) \<and> fst e \<notin> blacklistedWords E
      \<and> map_option toUpperCase (pathWord (grid (this E)) (snd e)) = Some (fst e))"

definition nodeOK :: "dfsEnv \<Rightarrow> pos \<Rightarrow> int \<Rightarrow> int \<Rightarrow> string \<Rightarrow> pos list \<Rightarrow> pos set \<Rightarrow> bool" where
  "nodeOK E start row col w p v =
     (p \<noteq> [] \<and> hd p = start \<and> last p = (row, col) \<and> path8 p \<and> distinct p
      \<and> set p \<inter> usedPos E = {} \<and> set p \<subseteq> v
      \<and> map_option toUpperCase (pathWord (grid (this E)) p) = Some w)"

text \<open>
  Placements: \<open>pairwiseDisjoint\<close> says that no two paths of a list share a cell.
  \<open>solInv\<close> and \<open>bestInv\<close> are the invariants of the search state: the occupied set
  is the set of cells of the current placement, the placement is pairwise disjoint and
  starts with the committed words, and the recorded best placement, when there is one,
  is such a placement too. \<open>stepState\<close> is the state after the first statements of
  \<open>solveRecursive\<close> (counting the attempt and, at a multiple of 1000, the progress
  block). \<open>logStep\<close> relates two states of one run: the later log extends the earlier,
  the attempt counts of the new entries increase, and the best coverage is the running
  maximum over the new entries.
\<close>

definition pairwiseDisjoint :: "pos list list \<Rightarrow> bool" where
  "pairwiseDisjoint ps =
     (\<forall>i \<in> {..<length ps}. \<forall>j \<in> {..<length ps}.
        i \<noteq> j \<longrightarrow> set (ps ! i) \<inter> set (ps ! j) = {})"

definition cellsOf :: "placement \<Rightarrow> pos set" where
  "cellsOf sol = (\<Union>e \<in> set sol. set (snd e))"

definition solInv :: "placement \<Rightarrow> solveState \<Rightarrow> bool" where
  "solInv existing s =
     (distinct (usedPositions s) \<and> set (usedPositions s) = cellsOf (currentSolution s)
      \<and> pairwiseDisjoint (map snd (currentSolution s))
      \<and> (\<exists>ys. currentSolution s = existing @ ys))"

definition bestInv :: "placement \<Rightarrow> solveState \<Rightarrow> bool" where
  "bestInv existing s =
     (bestSolution s = [] \<or>
      (pairwiseDisjoint (map snd (bestSolution s)) \<and> (\<exists>ys. bestSolution s = existing @ ys)))"

definition stepState :: "solveState \<Rightarrow> solveState" where
  "stepState s =
     (if (attempts s + 1) mod 1000 = 0 then pollProgress (s\<lparr>attempts := attempts s + 1\<rparr>)
      else s\<lparr>attempts := attempts s + 1\<rparr>)"

definition logStep :: "solveState \<Rightarrow> solveState \<Rightarrow> bool" where
  "logStep s s' =
     (\<exists>new. progressLog s' = progressLog s @ new
        \<and> bestCoverage s' = fold max (map (\<lambda>e. snd (snd e)) new) (bestCoverage s)
        \<and> attempts s \<le> attempts s'
        \<and> (\<forall>e \<in> set new. attempts s < fst e \<and> fst e \<le> attempts s')
        \<and> sorted_wrt (<) (map fst new))"

definition keepsInv :: "placement \<Rightarrow> solveState \<Rightarrow> solveState \<Rightarrow> bool" where
  "keepsInv existing s s' =
     (solInv existing s \<and> bestInv existing s \<longrightarrow> solInv existing s' \<and> bestInv existing s')"

text \<open>
  What a progress callback reports. \<open>candidatesOf\<close> and \<open>poolCandidates\<close> are the
  pairs \<open>(word, coords)\<close> of the prioritized list and of the pool. A
  \<open>searchPlacement\<close> is a placement that the search can hold: the committed words
  followed by candidates of the pool that are pairwise cell-disjoint and share no cell with
  the committed words. \<open>covInv\<close> is the invariant of the search state that needs no
  assumption on the committed words: the occupied cells are listed once each, they are the
  cells of the current placement, and the current placement is a \<open>searchPlacement\<close>.
  An entry \<open>(attempts, words, coverage)\<close> of the log \<open>reportsCurrent\<close> when its
  attempt count is a positive multiple of 1000 and its other two components are the number of
  words and the number of cells of one \<open>searchPlacement\<close>. \<open>reportStep\<close> relates
  two states of one run: from a state that satisfies \<open>covInv\<close> the later one does too,
  and every entry added to the log \<open>reportsCurrent\<close>.
\<close>

definition candidatesOf :: "solveEnv \<Rightarrow> (string \<times> pos list) set" where
  "candidatesOf C = (\<lambda>e. (fst e, fst (snd e))) ` set (prioritizedWords C)"

definition poolCandidates :: "poolEntry list \<Rightarrow> (string \<times> pos list) set" where
  "poolCandidates allWords = (\<lambda>e. (fst e, fst (snd e))) ` set allWords"

definition searchPlacement :: "(string \<times> pos list) set \<Rightarrow> placement \<Rightarrow> placement \<Rightarrow> bool" where
  "searchPlacement cands existing sol =
     (\<exists>ys. sol = existing @ ys \<and> set ys \<subseteq> cands \<and> pairwiseDisjoint (map snd ys)
        \<and> cellsOf existing \<inter> cellsOf ys = {})"

definition covInv :: "(string \<times> pos list) set \<Rightarrow> placement \<Rightarrow> solveState \<Rightarrow> bool" where
  "covInv cands existing s =
     (distinct (usedPositions s) \<and> set (usedPositions s) = cellsOf (currentSolution s)
      \<and> searchPlacement cands existing (currentSolution s))"

definition reportsCurrent ::
  "(string \<times> pos list) set \<Rightarrow> placement \<Rightarrow> int \<times> nat \<times> nat \<Rightarrow> bool" where
  "reportsCurrent cands existing e =
     (0 < fst e \<and> fst e mod 1000 = 0
      \<and> (\<exists>sol. searchPlacement cands existing sol
             \<and> fst (snd e) = length sol \<and> snd (snd e) = card (cellsOf sol)))"

definition reportStep ::
  "(string \<times> pos list) set \<Rightarrow> placement \<Rightarrow> solveState \<Rightarrow> solveState \<Rightarrow> bool" where
  "reportStep cands existing s s' =
     (covInv cands existing s \<and> 0 \<le> attempts s \<longrightarrow>
        covInv cands existing s' \<and> 0 \<le> attempts s'
        \<and> (\<exists>new. progressLog s' = progressLog s @ new
               \<and> (\<forall>e \<in> set new. reportsCurrent cands existing e)))"

text \<open>
  The order of the search. \<open>dfsVisits\<close> lists the nodes \<open>(word, path)\<close> that
  \<open>dfs\<close> visits, in the order of the visits: a node, then the nodes under each of its
  neighbours in the order of \<open>directions\<close>; it stops where \<open>dfs\<close> stops and raises
  where \<open>dfs\<close> raises. \<open>visitedNodes\<close> is that list for a call of
  \<open>findWordsDFS\<close>. A word \<open>qualifies\<close> when the first test of \<open>dfs\<close> accepts it.
  \<open>firstOccurrences\<close> keeps the first occurrence of every element of a list.
  \<open>firstLongest ps p\<close> says that \<open>p\<close> is the first path of maximum length in
  \<open>ps\<close>: no path of \<open>ps\<close> is longer and every earlier one is strictly shorter.
\<close>

function dfsVisits :: "dfsEnv \<Rightarrow> int \<Rightarrow> int \<Rightarrow> string \<Rightarrow> pos list \<Rightarrow> pos set
                  \<Rightarrow> error + (string \<times> pos list) list"
  and dfsDirsVisits :: "dfsEnv \<Rightarrow> (int \<times> int) list \<Rightarrow> int \<Rightarrow> int \<Rightarrow> string \<Rightarrow> pos list \<Rightarrow> pos set
                  \<Rightarrow> error + (string \<times> pos list) list"
  where
  "dfsVisits E row col currentWord currentPath visited =
     (if int (length currentWord) \<ge> maxLength E then Inr [(currentWord, currentPath)]
      else if \<not> hasPrefix (this E) currentWord then Inr [(currentWord, currentPath)]
      else (case dfsDirsVisits E directions row col currentWord currentPath visited of
              Inl e \<Rightarrow> Inl e
            | Inr vs \<Rightarrow> Inr ((currentWord, currentPath) # vs)))"
| "dfsDirsVisits E [] row col currentWord currentPath visited = Inr []"
| "dfsDirsVisits E (d # ds) row col currentWord currentPath visited =
     (let newRow = row + fst d; newCol = col + snd d
      in if skipCell E visited newRow newCol
         then dfsDirsVisits E ds row col currentWord currentPath visited
         else (case cellAt (grid (this E)) newRow newCol of
                 None \<Rightarrow> Inl TypeError
               | Some cell \<Rightarrow>
                   (case dfsVisits E newRow newCol (currentWord @ toUpperCase cell)
                           (currentPath @ [(newRow, newCol)])
                           (insert (newRow, newCol) visited) of
                      Inl e \<Rightarrow> Inl e
                    | Inr vs1 \<Rightarrow>
                        (case dfsDirsVisits E ds row col currentWord currentPath visited of
                           Inl e \<Rightarrow> Inl e
                         | Inr vs2 \<Rightarrow> Inr (vs1 @ vs2)))))"
  by pat_completeness auto
termination
proof (relation "inv_image (less_than <*lex*> less_than)
    (\<lambda>x. case x of
            Inl a \<Rightarrow> (unvisited (fst a) (snd (snd (snd (snd (snd a))))), 9)
          | Inr b \<Rightarrow> (unvisited (fst b) (snd (snd (snd (snd (snd (snd b)))))),
                      length (fst (snd b))))",
    goal_cases)
  case 1
  show ?case by (rule wf_inv_image) (rule wf_lex_prod; rule wf_less_than)
next
  case 2
  show ?case by (simp add: directions_def)
next
  case 3
  show ?case by simp
next
  case (4 E d ds row col currentWord currentPath visited newRow newCol cell)
  then show ?case by (simp add: unvisited_insert)
next
  case 5
  show ?case by simp
qed

declare dfsVisits.simps [simp del] dfsDirsVisits.simps [simp del]

definition recordStep :: "dfsEnv \<Rightarrow> uniqueMap \<Rightarrow> string \<times> pos list \<Rightarrow> uniqueMap" where
  "recordStep E m e = recordWord E (fst e) (snd e) m"

definition qualifies :: "dfsEnv \<Rightarrow> string \<Rightarrow> bool" where
  "qualifies E w =
     (int (length w) \<ge> minLength E \<and> w \<in> set (wordSet (this E)) \<and> w \<notin> blacklistedWords E)"

definition firstOccurrences :: "'a list \<Rightarrow> 'a list" where
  "firstOccurrences ws = rev (remdups (rev ws))"

definition firstLongest :: "pos list list \<Rightarrow> pos list \<Rightarrow> bool" where
  "firstLongest ps p =
     (\<exists>i \<in> {..<length ps}. ps ! i = p
        \<and> (\<forall>j \<in> {..<length ps}. length (ps ! j) \<le> length p)
        \<and> (\<forall>j \<in> {..<i}. length (ps ! j) < length p))"

definition visitedNodes ::
  "Solver \<Rightarrow> int \<Rightarrow> int \<Rightarrow> pos set \<Rightarrow> string set \<Rightarrow> int \<Rightarrow> int \<Rightarrow> (string \<times> pos list) list" where
  "visitedNodes S startRow startCol used blacklisted minLen maxLen =
     (if startRow < 0 \<or> startRow \<ge> rows S \<or> startCol < 0 \<or> startCol \<ge> cols S then []
      else if (startRow, startCol) \<in> used then []
      else (case cellAt (grid S) startRow startCol of
              None \<Rightarrow> []
            | Some cell \<Rightarrow>
                (case dfsVisits \<lparr>this = S, usedPos = used, blacklistedWords = blacklisted,
                           minLength = minLen, maxLength = maxLen\<rparr>
                        startRow startCol (toUpperCase cell) [(startRow, startCol)]
                        {(startRow, startCol)} of
                   Inl e \<Rightarrow> []
                 | Inr vs \<Rightarrow> vs)))"

definition stepOpt :: "pos list option \<Rightarrow> pos list \<Rightarrow> pos list option" where
  "stepOpt old p =
     (case old of None \<Rightarrow> Some p | Some q \<Rightarrow> if length p > length q then Some p else Some q)"

text \<open>
  \<open>qualifyingPath S start used w q\<close>: \<open>q\<close> is a simple 8-path from the start cell
  over cells inside the bounds \<open>rows\<close> and \<open>cols\<close>, none of them occupied, and it
  spells \<open>w\<close>. \<open>continues\<close> says that the search, standing at a node, goes on along
  the cells of a list and reaches a word: at every node before the last the word is shorter
  than \<open>maxLength\<close> and a live prefix, and the next cell is a neighbour that the loop
  does not skip.
\<close>

definition qualifyingPath :: "Solver \<Rightarrow> pos \<Rightarrow> pos set \<Rightarrow> string \<Rightarrow> pos list \<Rightarrow> bool" where
  "qualifyingPath S start used w q =
     (q \<noteq> [] \<and> hd q = start \<and> path8 q \<and> distinct q \<and> set q \<inter> used = {}
      \<and> (\<forall>c \<in> set q. 0 \<le> fst c \<and> fst c < rows S \<and> 0 \<le> snd c \<and> snd c < cols S)
      \<and> map_option toUpperCase (pathWord (grid S) q) = Some w)"

fun continues :: "dfsEnv \<Rightarrow> int \<Rightarrow> int \<Rightarrow> string \<Rightarrow> pos set \<Rightarrow> pos list \<Rightarrow> string \<Rightarrow> bool" where
  "continues E row col w v [] wq = (wq = w)"
| "continues E row col w v (c # cs) wq =
     (int (length w) < maxLength E \<and> hasPrefix (this E) w
      \<and> c \<in> set (map (\<lambda>d. (row + fst d, col + snd d)) directions)
      \<and> \<not> skipCell E v (fst c) (snd c)
      \<and> (case cellAt (grid (this E)) (fst c) (snd c) of
            None \<Rightarrow> False
          | Some cell \<Rightarrow>
              continues E (fst c) (snd c) (w @ toUpperCase cell) (insert c v) cs wq))"

declare dfs.simps [simp del] dfsDirs.simps [simp del]

section \<open>Word list loading: what is kept\<close>

lemma set_setAdd: "set (setAdd k xs) = insert k (set xs)"
  by (auto simp: setAdd_def)

lemma distinct_setAdd: "distinct xs \<Longrightarrow> distinct (setAdd k xs)"
  by (auto simp: setAdd_def)

lemma set_foldl_addLine:
  "set (foldl addLine acc ls) =
     set acc \<union> set (filter (\<lambda>w. 4 \<le> length w) (map (\<lambda>l. toUpperCase (trim l)) ls))"
  by (induction ls arbitrary: acc) (auto simp: addLine_def Let_def set_setAdd)

lemma distinct_foldl_addLine: "distinct acc \<Longrightarrow> distinct (foldl addLine acc ls)"
  by (induction ls arbitrary: acc) (auto simp: addLine_def Let_def distinct_setAdd)

text \<open>
  Claim C9, as the code has it: the built dictionary holds exactly the trimmed and
  uppercased lines of length at least 4, each once. Nothing filters characters outside
  \<open>A\<close>..\<open>Z\<close>.
\<close>

theorem loadWordList_keeps_long_lines:
  "set (loadWordList text) =
     set (filter (\<lambda>w. 4 \<le> length w) (map (\<lambda>l. toUpperCase (trim l)) (splitLines text)))
   \<and> distinct (loadWordList text)"
  by (simp add: loadWordList_def set_foldl_addLine distinct_foldl_addLine)

text \<open>The line \<open>cats\<close> with blanks around it is kept as \<open>CATS\<close>.\<close>

theorem loadWordList_keeps_long_lines_witness:
  "set (loadWordList ''  cats  '') = {''CATS''} \<and> distinct (loadWordList ''  cats  '')"
proof -
  have "set (filter (\<lambda>w. 4 \<le> length w) (map (\<lambda>l. toUpperCase (trim l)) (splitLines ''  cats  '')))
        = {''CATS''}"
    by code_simp
  then show ?thesis using loadWordList_keeps_long_lines [of "''  cats  ''"] by simp
qed

text \<open>
  Claim C9 as stated fails: the line \<open>ab-cd\<close> has a character outside
  \<open>A\<close>..\<open>Z\<close> and its uppercased form is in the built dictionary.
\<close>

theorem loadWordList_non_letter_counterexample:
  "''AB-CD'' \<in> set (loadWordList ''ab-cd'')"
  by code_simp

section \<open>The empty dictionary\<close>

lemma walkPrefix_empty: "walkPrefix (JObj []) p = (p = [])"
  by (cases p) simp_all

text \<open>
  Claim C8, as the code has it: building the trie of the empty word set raises nothing,
  no word is contained, and \<open>hasPrefix\<close> is false for every prefix but the empty
  string, for which the walk makes no step and returns true.
\<close>

theorem empty_dictionary_queries:
  assumes "newSolver g [] = Inr S"
  shows "buildPrefixTree [] = Inr (JObj []) \<and> \<not> contains S w \<and> hasPrefix S p = (p = [])"
  using assms
  by (auto simp: newSolver_def buildPrefixTree_def contains_def hasPrefix_def walkPrefix_empty
      split: list.splits)

text \<open>A solver on a one-cell grid with the empty word set.\<close>

theorem empty_dictionary_queries_witness:
  "newSolver [[''A'']] [] = Inr \<lparr>grid = [[''A'']], wordSet = [], prefixTree = JObj [], rows = 1, cols = 1\<rparr>
   \<and> \<not> contains \<lparr>grid = [[''A'']], wordSet = [], prefixTree = JObj [], rows = 1, cols = 1\<rparr> ''CATS''
   \<and> \<not> hasPrefix \<lparr>grid = [[''A'']], wordSet = [], prefixTree = JObj [], rows = 1, cols = 1\<rparr> ''CA''"
proof -
  have h: "newSolver [[''A'']] [] = Inr \<lparr>grid = [[''A'']], wordSet = [], prefixTree = JObj [], rows = 1, cols = 1\<rparr>"
    by (simp add: newSolver_def buildPrefixTree_def)
  show ?thesis
    using h empty_dictionary_queries [OF h, of "''CATS''" "''CA''"] by simp
qed

text \<open>
  Claim C8 as stated fails at the empty prefix: \<open>hasPrefix\<close> is true on the empty
  dictionary.
\<close>

theorem empty_dictionary_hasPrefix_counterexample:
  "newSolver [[''A'']] [] = Inr \<lparr>grid = [[''A'']], wordSet = [], prefixTree = JObj [], rows = 1, cols = 1\<rparr>
   \<and> hasPrefix \<lparr>grid = [[''A'']], wordSet = [], prefixTree = JObj [], rows = 1, cols = 1\<rparr> []"
  by (simp add: newSolver_def buildPrefixTree_def hasPrefix_def)

section \<open>The solver on small pools\<close>

text \<open>
  Claim C1 at a 2 by 3 grid whose dictionary holds the single word \<open>CATS\<close>: the
  enumerator finds the word on four of the six cells, the pool holds that candidate, and
  the search places it. The run ends after two attempts, the best placement is only
  recorded at attempts that are multiples of 1000, and \<open>solvePuzzle\<close> returns
  \<open>null\<close>.
\<close>

theorem solvePuzzle_drops_unsampled_best:
  "newSolver [[''C'', ''A'', ''X''], [''T'', ''S'', ''Y'']] [''CATS'']
     = Inr \<lparr>grid = [[''C'', ''A'', ''X''], [''T'', ''S'', ''Y'']], wordSet = [''CATS''],
            prefixTree = JObj [(CHR ''C'', JObj [(CHR ''A'', JObj [(CHR ''T'',
                           JObj [(CHR ''S'', JObj [(CHR ''$'', JTrue)])])])])],
            rows = 2, cols = 3\<rparr>
   \<and> findWordsDFS \<lparr>grid = [[''C'', ''A'', ''X''], [''T'', ''S'', ''Y'']], wordSet = [''CATS''],
            prefixTree = JObj [(CHR ''C'', JObj [(CHR ''A'', JObj [(CHR ''T'',
                           JObj [(CHR ''S'', JObj [(CHR ''$'', JTrue)])])])])],
            rows = 2, cols = 3\<rparr> 0 0 {} {} 4 15
     = Inr [(''CATS'', [(0, 0), (0, 1), (1, 0), (1, 1)])]
   \<and> solvePuzzle \<lparr>grid = [[''C'', ''A'', ''X''], [''T'', ''S'', ''Y'']], wordSet = [''CATS''],
            prefixTree = JObj [(CHR ''C'', JObj [(CHR ''A'', JObj [(CHR ''T'',
                           JObj [(CHR ''S'', JObj [(CHR ''$'', JTrue)])])])])],
            rows = 2, cols = 3\<rparr>
        [(''CATS'', [(0, 0), (0, 1), (1, 0), (1, 1)], 4)] [] (\<lambda>_. False) 100000
     = Inr None"
  by code_simp


section \<open>The enumerator reads letters through \<open>toUpperCase\<close>\<close>

lemma toUpperChar_unfold:
  "toUpperChar c =
     (if 97 \<le> (of_char c :: nat) \<and> (of_char c :: nat) \<le> 122
      then char_of (of_char c - 32 :: nat) else c)"
  unfolding toUpperChar_def Let_def ..

lemma toUpperChar_idem: "toUpperChar (toUpperChar c) = toUpperChar c"
proof (cases "97 \<le> (of_char c :: nat) \<and> (of_char c :: nat) \<le> 122")
  case True
  then have up: "toUpperChar c = char_of (of_char c - 32 :: nat)"
    by (subst toUpperChar_unfold) (rule if_P)
  from True have "(of_char c - 32 :: nat) < 256" by linarith
  then have "(of_char c - 32 :: nat) mod 256 = of_char c - 32" by (rule mod_less)
  then have m: "(of_char (char_of (of_char c - 32 :: nat) :: char) :: nat) = of_char c - 32"
    by (simp only: of_char_of)
  have "\<not> (97 \<le> (of_char c - 32 :: nat) \<and> (of_char c - 32 :: nat) \<le> 122)"
    using True by linarith
  then have "toUpperChar (char_of (of_char c - 32 :: nat)) = char_of (of_char c - 32 :: nat)"
    by (subst toUpperChar_unfold) (simp only: m if_False)
  then show ?thesis by (simp only: up)
next
  case False
  then have "toUpperChar c = c"
    by (subst toUpperChar_unfold) (rule if_not_P)
  then show ?thesis by simp
qed

lemma toUpperCase_idem: "toUpperCase (toUpperCase s) = toUpperCase s"
  by (simp add: toUpperCase_def toUpperChar_idem)

lemma cellAt_upperGrid: "cellAt (upperGrid g) r c = map_option toUpperCase (cellAt g r c)"
proof (cases "0 \<le> r \<and> r < int (length g)")
  case True
  then have r: "nat r < length g" by linarith
  then have row: "upperGrid g ! nat r = map toUpperCase (g ! nat r)"
    by (simp add: upperGrid_def)
  show ?thesis
  proof (cases "0 \<le> c \<and> c < int (length (g ! nat r))")
    case c: True
    then have "nat c < length (g ! nat r)" by linarith
    then have "map toUpperCase (g ! nat r) ! nat c = toUpperCase (g ! nat r ! nat c)"
      by (rule nth_map)
    with True c row show ?thesis by (simp add: cellAt_def upperGrid_def)
  next
    case c: False
    with True row show ?thesis by (auto simp add: cellAt_def upperGrid_def)
  qed
next
  case False
  then show ?thesis by (auto simp add: cellAt_def upperGrid_def)
qed

lemma recordWord_upper:
  "recordWord (E\<lparr>this := withUpperGrid (this E)\<rparr>) w p uw = recordWord E w p uw"
  by (simp add: recordWord_def withUpperGrid_def)

lemma skipCell_upper:
  "skipCell (E\<lparr>this := withUpperGrid (this E)\<rparr>) v r c = skipCell E v r c"
  by (simp add: skipCell_def withUpperGrid_def)

lemma dfs_upperGrid:
  "dfs (E\<lparr>this := withUpperGrid (this E)\<rparr>) row col w p v uw = dfs E row col w p v uw"
  "dfsDirs (E\<lparr>this := withUpperGrid (this E)\<rparr>) ds row col w p v uw = dfsDirs E ds row col w p v uw"
proof (induct E row col w p v uw and E ds row col w p v uw rule: dfs_dfsDirs.induct)
  case (1 E row col currentWord currentPath visited uniqueWords)
  show ?case
    apply (subst dfs.simps)
    apply (subst dfs.simps)
    using 1
    apply (simp add: Let_def recordWord_upper hasPrefix_def)
    apply (simp add: withUpperGrid_def)
    done
next
  case (2 E row col currentWord currentPath visited uniqueWords)
  show ?case by (simp add: dfsDirs.simps)
next
  case (3 E d ds row col currentWord currentPath visited uniqueWords)
  show ?case
    apply (subst dfsDirs.simps(2))
    apply (subst dfsDirs.simps(2))
    using 3
    apply (simp add: Let_def skipCell_upper)
    apply (simp add: withUpperGrid_def cellAt_upperGrid toUpperCase_idem split: option.splits sum.splits)
    done
qed


text \<open>
  Claim C10: the enumerator reads every grid letter through \<open>toUpperCase\<close>, so a solver
  on the cell-wise uppercased grid (which the constructor builds with the same dimensions
  and trie) returns the same result for every start cell, occupied set, blacklist and
  length bounds, errors included.
\<close>

theorem findWordsDFS_upperGrid:
  "newSolver (upperGrid g) ws = map_sum id withUpperGrid (newSolver g ws)
   \<and> findWordsDFS (withUpperGrid S) startRow startCol used bl minLen maxLen
       = findWordsDFS S startRow startCol used bl minLen maxLen"
proof
  show "newSolver (upperGrid g) ws = map_sum id withUpperGrid (newSolver g ws)"
    by (cases g) (simp_all add: newSolver_def withUpperGrid_def upperGrid_def split: sum.splits)
next
  let ?E = "\<lparr>this = S, usedPos = used, blacklistedWords = bl, minLength = minLen,
             maxLength = maxLen\<rparr>"
  have E: "\<lparr>this = withUpperGrid S, usedPos = used, blacklistedWords = bl, minLength = minLen,
             maxLength = maxLen\<rparr> = ?E\<lparr>this := withUpperGrid (this ?E)\<rparr>"
    by simp
  have rc: "rows (withUpperGrid S) = rows S" "cols (withUpperGrid S) = cols S"
    "grid (withUpperGrid S) = upperGrid (grid S)"
    by (simp_all add: withUpperGrid_def)
  show "findWordsDFS (withUpperGrid S) startRow startCol used bl minLen maxLen
       = findWordsDFS S startRow startCol used bl minLen maxLen"
    unfolding findWordsDFS_def rc cellAt_upperGrid E dfs_upperGrid
    by (simp add: toUpperCase_idem split: option.splits)
qed

text \<open>A lowercase 2 by 2 grid: the enumerator on its uppercased copy finds \<open>CATS\<close>.\<close>

theorem findWordsDFS_upperGrid_witness:
  "newSolver [[''c'', ''a''], [''t'', ''s'']] [''CATS'']
     = Inr \<lparr>grid = [[''c'', ''a''], [''t'', ''s'']], wordSet = [''CATS''],
            prefixTree = JObj [(CHR ''C'', JObj [(CHR ''A'', JObj [(CHR ''T'',
                           JObj [(CHR ''S'', JObj [(CHR ''$'', JTrue)])])])])],
            rows = 2, cols = 2\<rparr>
   \<and> findWordsDFS (withUpperGrid \<lparr>grid = [[''c'', ''a''], [''t'', ''s'']], wordSet = [''CATS''],
            prefixTree = JObj [(CHR ''C'', JObj [(CHR ''A'', JObj [(CHR ''T'',
                           JObj [(CHR ''S'', JObj [(CHR ''$'', JTrue)])])])])],
            rows = 2, cols = 2\<rparr>) 0 0 {} {} 4 15
     = Inr [(''CATS'', [(0, 0), (0, 1), (1, 0), (1, 1)])]"
proof -
  let ?S = "\<lparr>grid = [[''c'', ''a''], [''t'', ''s'']], wordSet = [''CATS''],
            prefixTree = JObj [(CHR ''C'', JObj [(CHR ''A'', JObj [(CHR ''T'',
                           JObj [(CHR ''S'', JObj [(CHR ''$'', JTrue)])])])])],
            rows = 2, cols = 2\<rparr>"
  have a: "newSolver [[''c'', ''a''], [''t'', ''s'']] [''CATS''] = Inr ?S"
    by code_simp
  have b: "findWordsDFS ?S 0 0 {} {} 4 15 = Inr [(''CATS'', [(0, 0), (0, 1), (1, 0), (1, 1)])]"
    by code_simp
  show ?thesis
    using a b findWordsDFS_upperGrid [of "[[''c'', ''a''], [''t'', ''s'']]" "[''CATS'']" ?S 0 0 "{}" "{}" 4 15]
    by simp
qed


section \<open>Soundness of the enumerator\<close>

lemma set_mapSet: "set (mapSet k v m) \<subseteq> insert (k, v) (set m)"
  by (induction m) (auto split: if_splits)

lemma recordWord_cases:
  assumes "e \<in> set (recordWord E w p uw)"
  shows "e \<in> set uw \<or> (e = (w, p) \<and> minLength E \<le> int (length w)
            \<and> w \<in> set (wordSet (this E)) \<and> w \<notin> blacklistedWords E)"
proof (cases "recordWord E w p uw = uw")
  case True
  with assms show ?thesis by simp
next
  case False
  then have q: "minLength E \<le> int (length w) \<and> w \<in> set (wordSet (this E)) \<and> w \<notin> blacklistedWords E"
    and r: "recordWord E w p uw = mapSet w p uw"
    by (auto simp: recordWord_def split: if_splits option.splits)
  from assms r set_mapSet [of w p uw] have "e \<in> insert (w, p) (set uw)" by auto
  with q show ?thesis by auto
qed

lemma path8_snoc: "p \<noteq> [] \<Longrightarrow> path8 (p @ [x]) = (path8 p \<and> adjacent8 (last p) x)"
  by (induction p rule: path8.induct) auto

lemma toUpperCase_append: "toUpperCase (a @ b) = toUpperCase a @ toUpperCase b"
  by (simp add: toUpperCase_def)

lemma pathWord_snoc:
  "pathWord g (p @ [x]) =
     (case pathWord g p of
        None \<Rightarrow> None
      | Some w \<Rightarrow> (case cellAt g (fst x) (snd x) of None \<Rightarrow> None | Some cell \<Rightarrow> Some (w @ cell)))"
  by (induction p) (auto split: option.splits)

lemma directions_adjacent:
  "d \<in> set directions \<Longrightarrow> adjacent8 (row, col) (row + fst d, col + snd d)"
  by (auto simp: directions_def adjacent8_def)

lemma nodeOK_step:
  assumes n: "nodeOK E start row col w p v"
    and d: "d \<in> set directions"
    and s: "\<not> skipCell E v (row + fst d) (col + snd d)"
    and c: "cellAt (grid (this E)) (row + fst d) (col + snd d) = Some cell"
  shows "nodeOK E start (row + fst d) (col + snd d) (w @ toUpperCase cell)
           (p @ [(row + fst d, col + snd d)]) (insert (row + fst d, col + snd d) v)"
proof -
  let ?x = "(row + fst d, col + snd d)"
  from s have nv: "?x \<notin> v" and nu: "?x \<notin> usedPos E"
    by (auto simp: skipCell_def split: if_splits)
  from n have p: "p \<noteq> []" "hd p = start" "last p = (row, col)" "path8 p" "distinct p"
    "set p \<inter> usedPos E = {}" "set p \<subseteq> v"
    and w: "map_option toUpperCase (pathWord (grid (this E)) p) = Some w"
    by (simp_all add: nodeOK_def)
  from w obtain w0 where w0: "pathWord (grid (this E)) p = Some w0" "w = toUpperCase w0"
    by (cases "pathWord (grid (this E)) p") auto
  have "path8 (p @ [?x])"
    using p directions_adjacent [OF d, of row col] by (simp add: path8_snoc)
  moreover have "distinct (p @ [?x])" using p nv by auto
  moreover have "set (p @ [?x]) \<inter> usedPos E = {}" using p nu by auto
  moreover have "map_option toUpperCase (pathWord (grid (this E)) (p @ [?x]))
                 = Some (w @ toUpperCase cell)"
    using w0 c by (simp add: pathWord_snoc toUpperCase_append)
  ultimately show ?thesis using p by (auto simp: nodeOK_def)
qed

lemma dfs_sound:
  "dfs E row col w p v uw = Inr uw' \<Longrightarrow> nodeOK E start row col w p v
     \<Longrightarrow> \<forall>e \<in> set uw. validCandidate E start e
     \<Longrightarrow> \<forall>e \<in> set uw'. validCandidate E start e"
  "dfsDirs E ds row col w p v uw = Inr uw' \<Longrightarrow> nodeOK E start row col w p v
     \<Longrightarrow> set ds \<subseteq> set directions
     \<Longrightarrow> \<forall>e \<in> set uw. validCandidate E start e
     \<Longrightarrow> \<forall>e \<in> set uw'. validCandidate E start e"
proof (induct E row col w p v uw and E ds row col w p v uw arbitrary: uw' and uw'
    rule: dfs_dfsDirs.induct)
  case (1 E row col w p v uw)
  let ?uw = "recordWord E w p uw"
  have rec: "\<forall>e \<in> set ?uw. validCandidate E start e"
  proof
    fix e assume "e \<in> set ?uw"
    from recordWord_cases [OF this] show "validCandidate E start e"
    proof
      assume "e \<in> set uw" with 1 show ?thesis by blast
    next
      assume "e = (w, p) \<and> minLength E \<le> int (length w)
            \<and> w \<in> set (wordSet (this E)) \<and> w \<notin> blacklistedWords E"
      with \<open>nodeOK E start row col w p v\<close> show ?thesis
        by (simp add: validCandidate_def nodeOK_def)
    qed
  qed
  show ?case
  proof (cases "maxLength E \<le> int (length w) \<or> \<not> hasPrefix (this E) w")
    case True
    with "1.prems"(1) have "uw' = ?uw" by (auto simp: dfs.simps Let_def split: if_splits)
    with rec show ?thesis by simp
  next
    case False
    with "1.prems"(1) have run: "dfsDirs E directions row col w p v ?uw = Inr uw'"
      by (auto simp: dfs.simps Let_def split: if_splits)
    from False show ?thesis
      using "1.hyps" [OF refl _ _ run "1.prems"(2) subset_refl rec] by auto
  qed
next
  case (2 E row col w p v uw)
  then show ?case by (simp add: dfsDirs.simps)
next
  case (3 E d ds row col w p v uw)
  let ?r = "row + fst d" and ?c = "col + snd d"
  from "3.prems"(3) have d: "d \<in> set directions" and ds: "set ds \<subseteq> set directions" by auto
  show ?case
  proof (cases "skipCell E v ?r ?c")
    case True
    with "3.prems"(1) have "dfsDirs E ds row col w p v uw = Inr uw'"
      by (simp add: dfsDirs.simps Let_def)
    from "3.hyps"(1) [OF refl refl True this "3.prems"(2) ds "3.prems"(4)] show ?thesis .
  next
    case False
    with "3.prems"(1) obtain cell uw1 where
      cell: "cellAt (grid (this E)) ?r ?c = Some cell"
      and sub: "dfs E ?r ?c (w @ toUpperCase cell) (p @ [(?r, ?c)]) (insert (?r, ?c) v) uw = Inr uw1"
      and rest: "dfsDirs E ds row col w p v uw1 = Inr uw'"
      by (auto simp: dfsDirs.simps Let_def split: option.splits sum.splits)
    have n1: "nodeOK E start ?r ?c (w @ toUpperCase cell) (p @ [(?r, ?c)]) (insert (?r, ?c) v)"
      by (rule nodeOK_step [OF "3.prems"(2) d False cell])
    have "\<forall>e \<in> set uw1. validCandidate E start e"
      by (rule "3.hyps"(2) [OF refl refl False cell sub n1 "3.prems"(4)])
    from "3.hyps"(3) [OF refl refl False cell sub rest "3.prems"(2) ds this] show ?thesis .
  qed
qed


lemma cellAt_mem: "cellAt g r c = Some cell \<Longrightarrow> \<exists>row \<in> set g. cell \<in> set row"
proof -
  assume a: "cellAt g r c = Some cell"
  then have r: "0 \<le> r \<and> r < int (length g)" by (auto simp: cellAt_def split: if_splits)
  with a have c: "0 \<le> c \<and> c < int (length (g ! nat r))" and e: "cell = g ! nat r ! nat c"
    by (auto simp: cellAt_def split: if_splits)
  from r have "nat r < length g" by linarith
  then have "g ! nat r \<in> set g" by simp
  moreover from c have "nat c < length (g ! nat r)" by linarith
  then have "cell \<in> set (g ! nat r)" using e by simp
  ultimately show ?thesis by blast
qed

lemma length_toUpperCase: "length (toUpperCase s) = length s"
  by (simp add: toUpperCase_def)

lemma dfs_length:
  "dfs E row col w p v uw = Inr uw' \<Longrightarrow> singleLetterCells (grid (this E))
     \<Longrightarrow> int (length w) \<le> maxLength E
     \<Longrightarrow> \<forall>e \<in> set uw. int (length (fst e)) \<le> maxLength E
     \<Longrightarrow> \<forall>e \<in> set uw'. int (length (fst e)) \<le> maxLength E"
  "dfsDirs E ds row col w p v uw = Inr uw' \<Longrightarrow> singleLetterCells (grid (this E))
     \<Longrightarrow> int (length w) < maxLength E
     \<Longrightarrow> \<forall>e \<in> set uw. int (length (fst e)) \<le> maxLength E
     \<Longrightarrow> \<forall>e \<in> set uw'. int (length (fst e)) \<le> maxLength E"
proof (induct E row col w p v uw and E ds row col w p v uw arbitrary: uw' and uw'
    rule: dfs_dfsDirs.induct)
  case (1 E row col w p v uw)
  let ?uw = "recordWord E w p uw"
  have rec: "\<forall>e \<in> set ?uw. int (length (fst e)) \<le> maxLength E"
  proof
    fix e assume "e \<in> set ?uw"
    from recordWord_cases [OF this] "1.prems"(3,4)
    show "int (length (fst e)) \<le> maxLength E" by auto
  qed
  show ?case
  proof (cases "maxLength E \<le> int (length w) \<or> \<not> hasPrefix (this E) w")
    case True
    with "1.prems"(1) have "uw' = ?uw" by (auto simp: dfs.simps Let_def split: if_splits)
    with rec show ?thesis by simp
  next
    case False
    with "1.prems"(1) have run: "dfsDirs E directions row col w p v ?uw = Inr uw'"
      by (auto simp: dfs.simps Let_def split: if_splits)
    from False have lt: "int (length w) < maxLength E" by auto
    from False show ?thesis
      using "1.hyps" [OF refl _ _ run "1.prems"(2) lt rec] by auto
  qed
next
  case (2 E row col w p v uw)
  then show ?case by (simp add: dfsDirs.simps)
next
  case (3 E d ds row col w p v uw)
  let ?r = "row + fst d" and ?c = "col + snd d"
  show ?case
  proof (cases "skipCell E v ?r ?c")
    case True
    with "3.prems"(1) have "dfsDirs E ds row col w p v uw = Inr uw'"
      by (simp add: dfsDirs.simps Let_def)
    from "3.hyps"(1) [OF refl refl True this "3.prems"(2,3,4)] show ?thesis .
  next
    case False
    with "3.prems"(1) obtain cell uw1 where
      cell: "cellAt (grid (this E)) ?r ?c = Some cell"
      and sub: "dfs E ?r ?c (w @ toUpperCase cell) (p @ [(?r, ?c)]) (insert (?r, ?c) v) uw = Inr uw1"
      and rest: "dfsDirs E ds row col w p v uw1 = Inr uw'"
      by (auto simp: dfsDirs.simps Let_def split: option.splits sum.splits)
    from cellAt_mem [OF cell] "3.prems"(2) have "length cell = 1"
      by (auto simp: singleLetterCells_def)
    with "3.prems"(3) have le: "int (length (w @ toUpperCase cell)) \<le> maxLength E"
      by (simp add: length_toUpperCase)
    have "\<forall>e \<in> set uw1. int (length (fst e)) \<le> maxLength E"
      by (rule "3.hyps"(2) [OF refl refl False cell sub "3.prems"(2) le "3.prems"(4)])
    from "3.hyps"(3) [OF refl refl False cell sub rest "3.prems"(2,3) this] show ?thesis .
  qed
qed

lemma pathWord_upper:
  "uppercaseCells g \<Longrightarrow> pathWord g p = Some w \<Longrightarrow> toUpperCase w = w"
proof (induction p arbitrary: w)
  case Nil
  then show ?case by (simp add: toUpperCase_def)
next
  case (Cons q qs)
  from Cons.prems(2) obtain cell w1 where
    c: "cellAt g (fst q) (snd q) = Some cell" and w1: "pathWord g qs = Some w1" and w: "w = cell @ w1"
    by (auto split: option.splits)
  from cellAt_mem [OF c] Cons.prems(1) have "toUpperCase cell = cell"
    by (auto simp: uppercaseCells_def)
  with Cons.IH [OF Cons.prems(1) w1] w show ?case by (simp add: toUpperCase_append)
qed

text \<open>
  Claim C2: every pair \<open>(w, p)\<close> returned by \<open>findWordsDFS\<close> has a path that starts
  at the start cell, is a simple 8-path, avoids the occupied cells, and spells \<open>w\<close>
  (the uppercased letters along \<open>p\<close>, which are the grid letters themselves on an uppercase
  grid); \<open>w\<close> is in the word set, not blacklisted, and at least \<open>minLen\<close> long. It is
  at most \<open>maxLen\<close> long on a grid of single letters when \<open>maxLen\<close> is at least 1 or
  every dictionary word has at least 4 letters, as the data model has it.
\<close>

theorem findWordsDFS_candidates_valid:
  assumes res: "findWordsDFS S startRow startCol used bl minLen maxLen = Inr result"
    and mem: "(w, p) \<in> set result"
  shows "p \<noteq> [] \<and> hd p = (startRow, startCol)
         \<and> path8 p \<and> distinct p
         \<and> set p \<inter> used = {}
         \<and> minLen \<le> int (length w)
         \<and> (singleLetterCells (grid S)
              \<and> (1 \<le> maxLen \<or> (\<forall>x \<in> set (wordSet S). 4 \<le> length x))
              \<longrightarrow> int (length w) \<le> maxLen)
         \<and> contains S w
         \<and> w \<notin> bl
         \<and> map_option toUpperCase (pathWord (grid S) p) = Some w
         \<and> (uppercaseCells (grid S) \<longrightarrow> pathWord (grid S) p = Some w)"
proof -
  let ?E = "\<lparr>this = S, usedPos = used, blacklistedWords = bl, minLength = minLen,
             maxLength = maxLen\<rparr>"
  let ?start = "(startRow, startCol)"
  from res mem obtain cell uw where
    nu: "?start \<notin> used"
    and cell: "cellAt (grid S) startRow startCol = Some cell"
    and run: "dfs ?E startRow startCol (toUpperCase cell) [?start] {?start} [] = Inr uw"
    and result: "result = sortByLength uw"
    by (auto simp: findWordsDFS_def split: if_splits option.splits sum.splits)
  from mem result have in_uw: "(w, p) \<in> set uw" by (simp add: sortByLength_def)
  have node: "nodeOK ?E ?start startRow startCol (toUpperCase cell) [?start] {?start}"
    using nu cell by (simp add: nodeOK_def)
  have "\<forall>e \<in> set uw. validCandidate ?E ?start e"
    by (rule dfs_sound(1) [OF run node]) simp
  with in_uw have v: "validCandidate ?E ?start (w, p)" by blast
  have len: "int (length w) \<le> maxLen"
    if single: "singleLetterCells (grid S)"
      and h: "1 \<le> maxLen \<or> (\<forall>x \<in> set (wordSet S). 4 \<le> length x)"
  proof (cases "1 \<le> maxLen")
    case True
    from cellAt_mem [OF cell] single have "length cell = 1"
      by (auto simp: singleLetterCells_def)
    with True have "int (length (toUpperCase cell)) \<le> maxLength ?E"
      by (simp add: length_toUpperCase)
    from dfs_length(1) [OF run _ this] single in_uw show ?thesis by auto
  next
    case False
    with h have long: "\<forall>x \<in> set (wordSet S). 4 \<le> length x" by simp
    from cellAt_mem [OF cell] single have c1: "length cell = 1"
      by (auto simp: singleLetterCells_def)
    with False have "maxLength ?E \<le> int (length (toUpperCase cell))"
      by (simp add: length_toUpperCase)
    with run have "uw = recordWord ?E (toUpperCase cell) [?start] []"
      by (simp add: dfs.simps Let_def)
    with in_uw recordWord_cases [of "(w, p)" ?E "toUpperCase cell" "[?start]" "[]"]
    have "w = toUpperCase cell \<and> w \<in> set (wordSet S)" by auto
    with long c1 show ?thesis by (auto simp: length_toUpperCase)
  qed
  have up: "pathWord (grid S) p = Some w" if u: "uppercaseCells (grid S)"
  proof -
    from v obtain w0 where w0: "pathWord (grid S) p = Some w0" "w = toUpperCase w0"
      by (cases "pathWord (grid S) p") (auto simp: validCandidate_def)
    with pathWord_upper [OF u w0(1)] show ?thesis by simp
  qed
  from v len up show ?thesis by (simp add: validCandidate_def contains_def)
qed


text \<open>The 2 by 2 grid \<open>CA/TS\<close> with the dictionary \<open>{CATS}\<close>, from the top left cell.\<close>

theorem findWordsDFS_candidates_valid_witness:
  "findWordsDFS \<lparr>grid = [[''C'', ''A''], [''T'', ''S'']], wordSet = [''CATS''],
            prefixTree = JObj [(CHR ''C'', JObj [(CHR ''A'', JObj [(CHR ''T'',
                           JObj [(CHR ''S'', JObj [(CHR ''$'', JTrue)])])])])],
            rows = 2, cols = 2\<rparr> 0 0 {} {} 4 15
     = Inr [(''CATS'', [(0, 0), (0, 1), (1, 0), (1, 1)])]
   \<and> singleLetterCells [[''C'', ''A''], [''T'', ''S'']]
   \<and> uppercaseCells [[''C'', ''A''], [''T'', ''S'']]
   \<and> path8 [(0, 0), (0, 1), (1, 0), (1, 1)]
   \<and> int (length ''CATS'') \<le> 15
   \<and> pathWord [[''C'', ''A''], [''T'', ''S'']] [(0, 0), (0, 1), (1, 0), (1, 1)] = Some ''CATS''"
proof -
  let ?S = "\<lparr>grid = [[''C'', ''A''], [''T'', ''S'']], wordSet = [''CATS''],
            prefixTree = JObj [(CHR ''C'', JObj [(CHR ''A'', JObj [(CHR ''T'',
                           JObj [(CHR ''S'', JObj [(CHR ''$'', JTrue)])])])])],
            rows = 2, cols = 2\<rparr>"
  let ?p = "[(0, 0), (0, 1), (1, 0), (1, 1)] :: pos list"
  have res: "findWordsDFS ?S 0 0 {} {} 4 15 = Inr [(''CATS'', ?p)]"
    by code_simp
  have mem: "(''CATS'', ?p) \<in> set [(''CATS'', ?p)]" by simp
  have s: "singleLetterCells [[''C'', ''A''], [''T'', ''S'']]" by code_simp
  have u: "uppercaseCells [[''C'', ''A''], [''T'', ''S'']]" by code_simp
  from findWordsDFS_candidates_valid [OF res mem] s u res show ?thesis by simp
qed


section \<open>Invariants of the tiling solver\<close>

declare solveRecursive.simps [simp del] tryWords.simps [simp del]

lemma pairwiseDisjoint_snoc:
  assumes "pairwiseDisjoint ps" and "\<forall>q \<in> set ps. set q \<inter> set c = {}"
  shows "pairwiseDisjoint (ps @ [c])"
  unfolding pairwiseDisjoint_def
proof (intro ballI impI)
  fix i j
  assume "i \<in> {..<length (ps @ [c])}" and "j \<in> {..<length (ps @ [c])}" and ne: "i \<noteq> j"
  then have i: "i < length (ps @ [c])" and j: "j < length (ps @ [c])" by simp_all
  show "set ((ps @ [c]) ! i) \<inter> set ((ps @ [c]) ! j) = {}"
  proof (cases "i < length ps")
    case True
    note iT = True
    show ?thesis
    proof (cases "j < length ps")
      case True
      with iT ne assms(1) show ?thesis by (simp add: pairwiseDisjoint_def nth_append)
    next
      case False
      with j have "j = length ps" by simp
      moreover from iT have "ps ! i \<in> set ps" by simp
      ultimately show ?thesis using iT assms(2) by (auto simp: nth_append)
    qed
  next
    case False
    with i have ii: "i = length ps" by simp
    with j ne have jj: "j < length ps" by simp
    then have "ps ! j \<in> set ps" by simp
    with ii jj assms(2) show ?thesis by (auto simp: nth_append)
  qed
qed

lemma set_foldl_setAdd: "set (foldl (\<lambda>used p. setAdd p used) used coords) = set used \<union> set coords"
  by (induction coords arbitrary: used) (auto simp: setAdd_def)

lemma distinct_foldl_setAdd:
  "distinct used \<Longrightarrow> distinct (foldl (\<lambda>used p. setAdd p used) used coords)"
  by (induction coords arbitrary: used) (auto simp: setAdd_def)

lemma foldl_setAdd_append:
  "\<exists>xs. foldl (\<lambda>used p. setAdd p used) used coords = used @ xs \<and> set xs \<subseteq> set coords"
proof (induction coords arbitrary: used)
  case Nil
  show ?case by simp
next
  case (Cons c cs)
  from Cons [of "setAdd c used"] obtain xs where
    xs: "foldl (\<lambda>used p. setAdd p used) (setAdd c used) cs = setAdd c used @ xs" "set xs \<subseteq> set cs"
    by blast
  show ?case
  proof (cases "c \<in> set used")
    case True
    with xs show ?thesis by (auto simp: setAdd_def)
  next
    case False
    with xs have "foldl (\<lambda>used p. setAdd p used) used (c # cs) = used @ (c # xs)"
      by (simp add: setAdd_def)
    moreover have "set (c # xs) \<subseteq> set (c # cs)" using xs by auto
    ultimately show ?thesis by blast
  qed
qed

lemma foldl_setDelete: "foldl (\<lambda>used p. setDelete p used) used coords = filter (\<lambda>x. x \<notin> set coords) used"
proof (induction coords arbitrary: used)
  case Nil
  show ?case by simp
next
  case (Cons c cs)
  have r: "setDelete c used = filter (\<lambda>x. x \<noteq> c) used"
    by (induction used) (auto simp: setDelete_def)
  have "foldl (\<lambda>used p. setDelete p used) used (c # cs)
        = foldl (\<lambda>used p. setDelete p used) (setDelete c used) cs" by simp
  also have "\<dots> = filter (\<lambda>x. x \<notin> set cs) (setDelete c used)" by (rule Cons)
  also have "\<dots> = filter (\<lambda>x. x \<notin> set (c # cs)) used"
    by (auto simp: r intro: filter_cong)
  finally show ?case .
qed


lemma place_remove:
  assumes "set coords \<inter> set used = {}"
  shows "foldl (\<lambda>used p. setDelete p used) (foldl (\<lambda>used p. setAdd p used) used coords) coords
         = used"
proof -
  from foldl_setAdd_append [of used coords] obtain xs where
    xs: "foldl (\<lambda>used p. setAdd p used) used coords = used @ xs" "set xs \<subseteq> set coords"
    by blast
  have "filter (\<lambda>x. x \<notin> set coords) used = used" using assms by (auto simp: filter_id_conv)
  moreover have "filter (\<lambda>x. x \<notin> set coords) xs = []" using xs(2) by (auto simp: filter_empty_conv)
  ultimately show ?thesis by (simp add: foldl_setDelete xs(1))
qed

lemma solInv_place:
  assumes inv: "solInv existing s" and can: "canPlaceWord coords s"
  shows "solInv existing (placeWord word coords s)"
proof -
  from inv have d: "distinct (usedPositions s)"
    and u: "set (usedPositions s) = cellsOf (currentSolution s)"
    and pd: "pairwiseDisjoint (map snd (currentSolution s))"
    and ex: "\<exists>ys. currentSolution s = existing @ ys"
    by (simp_all add: solInv_def)
  from can have disj: "set coords \<inter> set (usedPositions s) = {}"
    by (auto simp: canPlaceWord_def)
  have "\<forall>q \<in> set (map snd (currentSolution s)). set q \<inter> set coords = {}"
    using disj u by (auto simp: cellsOf_def)
  with pd have "pairwiseDisjoint (map snd (currentSolution s) @ [coords])"
    by (rule pairwiseDisjoint_snoc)
  moreover have "set (foldl (\<lambda>used p. setAdd p used) (usedPositions s) coords)
                 = cellsOf (currentSolution s @ [(word, coords)])"
    using u by (auto simp: set_foldl_setAdd cellsOf_def)
  moreover from ex have "\<exists>ys. currentSolution s @ [(word, coords)] = existing @ ys" by auto
  ultimately show ?thesis
    using d by (simp add: solInv_def placeWord_def distinct_foldl_setAdd)
qed

lemma remove_place:
  assumes can: "canPlaceWord coords s"
    and sol: "currentSolution s' = currentSolution (placeWord word coords s)"
    and used: "usedPositions s' = usedPositions (placeWord word coords s)"
  shows "\<exists>s''. removeWord s' = Some s'' \<and> currentSolution s'' = currentSolution s
           \<and> usedPositions s'' = usedPositions s \<and> bestSolution s'' = bestSolution s'
           \<and> bestCoverage s'' = bestCoverage s' \<and> progressLog s'' = progressLog s'
           \<and> attempts s'' = attempts s'"
proof -
  from can have disj: "set coords \<inter> set (usedPositions s) = {}"
    by (auto simp: canPlaceWord_def)
  from sol have r: "rev (currentSolution s') = (word, coords) # rev (currentSolution s)"
    by (simp add: placeWord_def)
  show ?thesis
    using place_remove [OF disj] used by (simp add: removeWord_def r placeWord_def)
qed

lemma solInv_cong:
  "currentSolution s' = currentSolution s \<Longrightarrow> usedPositions s' = usedPositions s
     \<Longrightarrow> solInv existing s' = solInv existing s"
  by (simp add: solInv_def)

lemma bestInv_cong: "bestSolution s' = bestSolution s \<Longrightarrow> bestInv existing s' = bestInv existing s"
  by (simp add: bestInv_def)

lemma pollProgress_fields:
  "currentSolution (pollProgress s) = currentSolution s"
  "usedPositions (pollProgress s) = usedPositions s"
  "attempts (pollProgress s) = attempts s"
  by (simp_all add: pollProgress_def Let_def)

lemma bestInv_poll:
  "solInv existing s \<Longrightarrow> bestInv existing s \<Longrightarrow> bestInv existing (pollProgress s)"
  by (auto simp: pollProgress_def Let_def bestInv_def solInv_def)

lemma solveRecursive_unfold:
  "solveRecursive C wordIndex s =
     (if (attempts s + 1) mod 1000 = 0 \<and> shouldCancel C (attempts s + 1)
      then Some (False, stepState s)
      else if int (length (usedPositions s)) = totalPositions C then Some (True, stepState s)
      else if attempts s + 1 > maxAttempts C then Some (False, stepState s)
      else tryWords C wordIndex (stepState s))"
  by (simp add: solveRecursive.simps Let_def stepState_def pollProgress_fields)

lemma stepState_fields:
  "currentSolution (stepState s) = currentSolution s"
  "usedPositions (stepState s) = usedPositions s"
  by (simp_all add: stepState_def pollProgress_fields)

lemma stepState_inv:
  assumes "solInv existing s" "bestInv existing s"
  shows "solInv existing (stepState s)" "bestInv existing (stepState s)"
proof -
  show "solInv existing (stepState s)"
    using assms(1) by (simp add: solInv_cong [OF stepState_fields])
  have a: "solInv existing (s\<lparr>attempts := attempts s + 1\<rparr>)"
    "bestInv existing (s\<lparr>attempts := attempts s + 1\<rparr>)"
    using assms by (simp_all add: solInv_def bestInv_def)
  show "bestInv existing (stepState s)"
    using a bestInv_poll [OF a] by (simp add: stepState_def)
qed

lemma logStep_same:
  "progressLog s' = progressLog s \<Longrightarrow> bestCoverage s' = bestCoverage s
     \<Longrightarrow> attempts s' = attempts s \<Longrightarrow> logStep s s'"
  by (simp add: logStep_def)

lemma logStep_trans:
  assumes "logStep s s1" and "logStep s1 s2"
  shows "logStep s s2"
proof -
  from assms(1) obtain n1 where n1: "progressLog s1 = progressLog s @ n1"
    "bestCoverage s1 = fold max (map (\<lambda>e. snd (snd e)) n1) (bestCoverage s)"
    "attempts s \<le> attempts s1" "\<forall>e \<in> set n1. attempts s < fst e \<and> fst e \<le> attempts s1"
    "sorted_wrt (<) (map fst n1)"
    unfolding logStep_def by blast
  from assms(2) obtain n2 where n2: "progressLog s2 = progressLog s1 @ n2"
    "bestCoverage s2 = fold max (map (\<lambda>e. snd (snd e)) n2) (bestCoverage s1)"
    "attempts s1 \<le> attempts s2" "\<forall>e \<in> set n2. attempts s1 < fst e \<and> fst e \<le> attempts s2"
    "sorted_wrt (<) (map fst n2)"
    unfolding logStep_def by blast
  have "progressLog s2 = progressLog s @ (n1 @ n2)" using n1(1) n2(1) by simp
  moreover have "bestCoverage s2 = fold max (map (\<lambda>e. snd (snd e)) (n1 @ n2)) (bestCoverage s)"
    using n1(2) n2(2) by simp
  moreover have "attempts s \<le> attempts s2" using n1(3) n2(3) by simp
  moreover have "\<forall>e \<in> set (n1 @ n2). attempts s < fst e \<and> fst e \<le> attempts s2"
    using n1(3,4) n2(3,4) by fastforce
  moreover have "sorted_wrt (<) (map fst (n1 @ n2))"
    using n1(4,5) n2(4,5) by (fastforce simp: sorted_wrt_append)
  ultimately show ?thesis unfolding logStep_def by blast
qed

lemma logStep_stepState: "logStep s (stepState s)"
proof (cases "(attempts s + 1) mod 1000 = 0")
  case True
  let ?e = "(attempts s + 1, length (currentSolution s), length (usedPositions s))"
  have "progressLog (stepState s) = progressLog s @ [?e]"
    using True by (simp add: stepState_def pollProgress_def Let_def)
  moreover have "bestCoverage (stepState s)
                 = fold max (map (\<lambda>e. snd (snd e)) [?e]) (bestCoverage s)"
    using True by (simp add: stepState_def pollProgress_def Let_def max_def)
  moreover have "attempts (stepState s) = attempts s + 1"
    using True by (simp add: stepState_def pollProgress_def Let_def)
  ultimately show ?thesis unfolding logStep_def by (intro exI [of _ "[?e]"]) simp
next
  case False
  then show ?thesis unfolding logStep_def by (intro exI [of _ "[]"]) (simp add: stepState_def)
qed

lemma keepsInv_trans: "keepsInv ex s s1 \<Longrightarrow> keepsInv ex s1 s2 \<Longrightarrow> keepsInv ex s s2"
  by (simp add: keepsInv_def)

lemma keepsInv_stepState: "keepsInv ex s (stepState s)"
  using stepState_inv [of ex s] by (simp add: keepsInv_def)

lemma keepsInv_place: "canPlaceWord coords s \<Longrightarrow> keepsInv ex s (placeWord word coords s)"
  using solInv_place [of ex s coords word]
  by (simp add: keepsInv_def) (simp add: bestInv_def placeWord_def)

lemma solve_invariant:
  "\<exists>r s'. solveRecursive C i s = Some (r, s')
       \<and> (\<not> r \<longrightarrow> currentSolution s' = currentSolution s \<and> usedPositions s' = usedPositions s)
       \<and> logStep s s' \<and> keepsInv existing s s'"
  "\<exists>r s'. tryWords C i s = Some (r, s')
       \<and> (\<not> r \<longrightarrow> currentSolution s' = currentSolution s \<and> usedPositions s' = usedPositions s)
       \<and> logStep s s' \<and> keepsInv existing s s'"
proof (induct C i s and C i s rule: solveRecursive_tryWords.induct)
  case (1 C wordIndex s)
  show ?case
  proof (cases "((attempts s + 1) mod 1000 = 0 \<and> shouldCancel C (attempts s + 1))
                \<or> int (length (usedPositions s)) = totalPositions C
                \<or> attempts s + 1 > maxAttempts C")
    case True
    then show ?thesis
      using keepsInv_stepState [of existing s] logStep_stepState [of s]
      by (auto simp: solveRecursive_unfold stepState_fields)
  next
    case False
    then have eq: "solveRecursive C wordIndex s = tryWords C wordIndex (stepState s)"
      by (auto simp: solveRecursive_unfold)
    have "\<exists>r s'. tryWords C wordIndex (stepState s) = Some (r, s')
            \<and> (\<not> r \<longrightarrow> currentSolution s' = currentSolution (stepState s)
                       \<and> usedPositions s' = usedPositions (stepState s))
            \<and> logStep (stepState s) s' \<and> keepsInv existing (stepState s) s'"
      using False
      by (intro "1.hyps" [OF refl _ _ _ _, unfolded Let_def])
         (auto simp: stepState_def pollProgress_fields Let_def)
    then show ?thesis
      using logStep_trans [OF logStep_stepState [of s]]
        keepsInv_trans [OF keepsInv_stepState [of existing s]]
      by (auto simp: eq stepState_fields)
  qed
next
  case (2 C i s)
  show ?case
  proof (cases "i < length (prioritizedWords C)")
    case False
    then show ?thesis using logStep_same [of s s] by (auto simp: tryWords.simps keepsInv_def)
  next
    case True
    let ?word = "fst (prioritizedWords C ! i)" and ?coords = "fst (snd (prioritizedWords C ! i))"
    show ?thesis
    proof (cases "canPlaceWord ?coords s")
      case False
      with True have eq: "tryWords C i s = tryWords C (i + 1) s"
        by (subst tryWords.simps) (simp add: Let_def)
      from "2.hyps"(3) [OF True refl refl False] show ?thesis by (auto simp: eq)
    next
      case can: True
      let ?s1 = "placeWord ?word ?coords s"
      from "2.hyps"(1) [OF True refl refl can] obtain r s' where
        run: "solveRecursive C (i + 1) ?s1 = Some (r, s')"
        and frame: "\<not> r \<longrightarrow> currentSolution s' = currentSolution ?s1
                       \<and> usedPositions s' = usedPositions ?s1"
        and log1: "logStep ?s1 s'" and keep1: "keepsInv existing ?s1 s'"
        by blast
      have "logStep s ?s1" by (rule logStep_same) (simp_all add: placeWord_def)
      then have log: "logStep s s'" using log1 by (rule logStep_trans)
      have keep: "keepsInv existing s s'"
        using keepsInv_place [OF can] keep1 by (rule keepsInv_trans)
      show ?thesis
      proof (cases r)
        case True
        with run \<open>i < length (prioritizedWords C)\<close> can
        have "tryWords C i s = Some (True, s')"
          by (subst tryWords.simps) (simp add: Let_def)
        with log keep show ?thesis by auto
      next
        case False
        with frame have f: "currentSolution s' = currentSolution ?s1"
          "usedPositions s' = usedPositions ?s1" by simp_all
        from remove_place [OF can f] obtain s'' where
          rm: "removeWord s' = Some s''" and
          s'': "currentSolution s'' = currentSolution s" "usedPositions s'' = usedPositions s"
            "bestSolution s'' = bestSolution s'" "bestCoverage s'' = bestCoverage s'"
            "progressLog s'' = progressLog s'" "attempts s'' = attempts s'"
          by blast
        have "logStep s' s''" by (rule logStep_same) (simp_all add: s'')
        with log have log2: "logStep s s''" by (rule logStep_trans)
        have keep2: "keepsInv existing s s''"
          using keep by (simp add: keepsInv_def solInv_cong [OF s''(1,2)] bestInv_cong [OF s''(3)])
        from run False rm \<open>i < length (prioritizedWords C)\<close> can
        have eq: "tryWords C i s = tryWords C (i + 1) s''"
          by (subst tryWords.simps) (simp add: Let_def)
        from "2.hyps"(2) [OF \<open>i < length (prioritizedWords C)\<close> refl refl can run refl False rm]
        show ?thesis
          using logStep_trans [OF log2] keepsInv_trans [OF keep2] by (auto simp: eq s'')
      qed
    qed
  qed
qed

lemma foldl_addExisting:
  "currentSolution (foldl addExisting s es) = currentSolution s @ es"
  "set (usedPositions (foldl addExisting s es)) = set (usedPositions s) \<union> cellsOf es"
  "distinct (usedPositions s) \<Longrightarrow> distinct (usedPositions (foldl addExisting s es))"
  "bestSolution (foldl addExisting s es) = bestSolution s"
  "progressLog (foldl addExisting s es) = progressLog s"
  "attempts (foldl addExisting s es) = attempts s"
  by (induction es arbitrary: s)
     (auto simp: addExisting_def set_foldl_setAdd distinct_foldl_setAdd cellsOf_def)

lemma initialState_inv:
  assumes "pairwiseDisjoint (map snd existingWords)"
  shows "solInv existingWords (initialState existingWords)"
    and "bestInv existingWords (initialState existingWords)"
  using assms
  by (simp_all add: initialState_def Let_def solInv_def bestInv_def foldl_addExisting cellsOf_def)

lemma initialState_fields:
  "progressLog (initialState ex) = []"
  "bestCoverage (initialState ex) = length (usedPositions (initialState ex))"
  by (simp_all add: initialState_def Let_def foldl_addExisting)

lemma covInv_cong:
  "currentSolution s' = currentSolution s \<Longrightarrow> usedPositions s' = usedPositions s
     \<Longrightarrow> covInv cands existing s' = covInv cands existing s"
  by (simp add: covInv_def)

lemma reportStep_trans:
  assumes "reportStep cands ex s s1" and "reportStep cands ex s1 s2"
  shows "reportStep cands ex s s2"
  unfolding reportStep_def
proof (intro impI)
  assume a: "covInv cands ex s \<and> 0 \<le> attempts s"
  with assms(1) obtain n1 where b: "covInv cands ex s1" "0 \<le> attempts s1"
    "progressLog s1 = progressLog s @ n1" "\<forall>e \<in> set n1. reportsCurrent cands ex e"
    unfolding reportStep_def by blast
  with assms(2) obtain n2 where c: "covInv cands ex s2" "0 \<le> attempts s2"
    "progressLog s2 = progressLog s1 @ n2" "\<forall>e \<in> set n2. reportsCurrent cands ex e"
    unfolding reportStep_def by blast
  have "progressLog s2 = progressLog s @ (n1 @ n2)" using b(3) c(3) by simp
  moreover have "\<forall>e \<in> set (n1 @ n2). reportsCurrent cands ex e" using b(4) c(4) by auto
  ultimately show "covInv cands ex s2 \<and> 0 \<le> attempts s2
    \<and> (\<exists>new. progressLog s2 = progressLog s @ new \<and> (\<forall>e \<in> set new. reportsCurrent cands ex e))"
    using c(1,2) by blast
qed

lemma reportStep_same:
  assumes "currentSolution s' = currentSolution s" "usedPositions s' = usedPositions s"
    "progressLog s' = progressLog s" "attempts s' = attempts s"
  shows "reportStep cands ex s s'"
  using assms by (simp add: reportStep_def covInv_cong [OF assms(1,2)])

lemma stepState_log:
  "progressLog (stepState s)
     = (if (attempts s + 1) mod 1000 = 0
        then progressLog s @ [(attempts s + 1, length (currentSolution s), length (usedPositions s))]
        else progressLog s)"
  "attempts (stepState s) = attempts s + 1"
  by (simp_all add: stepState_def pollProgress_def Let_def)

lemma reportStep_stepState: "reportStep cands ex s (stepState s)"
  unfolding reportStep_def
proof (intro impI)
  assume a: "covInv cands ex s \<and> 0 \<le> attempts s"
  then have inv: "covInv cands ex (stepState s)"
    by (simp add: covInv_cong [OF stepState_fields])
  from a have card: "length (usedPositions s) = card (cellsOf (currentSolution s))"
    and sp: "searchPlacement cands ex (currentSolution s)"
    using distinct_card [of "usedPositions s"] by (simp_all add: covInv_def)
  let ?e = "(attempts s + 1, length (currentSolution s), length (usedPositions s))"
  let ?new = "if (attempts s + 1) mod 1000 = 0 then [?e] else []"
  have "progressLog (stepState s) = progressLog s @ ?new" by (simp add: stepState_log)
  moreover have "\<forall>e \<in> set ?new. reportsCurrent cands ex e"
    using a card sp by (auto simp: reportsCurrent_def)
  ultimately show "covInv cands ex (stepState s) \<and> 0 \<le> attempts (stepState s)
    \<and> (\<exists>new. progressLog (stepState s) = progressLog s @ new
          \<and> (\<forall>e \<in> set new. reportsCurrent cands ex e))"
    using inv a by (auto simp: stepState_log(2))
qed

lemma covInv_place:
  assumes inv: "covInv cands existing s" and can: "canPlaceWord coords s"
    and mem: "(word, coords) \<in> cands"
  shows "covInv cands existing (placeWord word coords s)"
proof -
  from inv obtain ys where d: "distinct (usedPositions s)"
    and u: "set (usedPositions s) = cellsOf (currentSolution s)"
    and ys: "currentSolution s = existing @ ys" "set ys \<subseteq> cands"
      "pairwiseDisjoint (map snd ys)" "cellsOf existing \<inter> cellsOf ys = {}"
    unfolding covInv_def searchPlacement_def by blast
  from can have disj: "set coords \<inter> set (usedPositions s) = {}"
    by (auto simp: canPlaceWord_def)
  have "\<forall>q \<in> set (map snd ys). set q \<inter> set coords = {}"
    using disj u ys(1) by (auto simp: cellsOf_def)
  with ys(3) have "pairwiseDisjoint (map snd ys @ [coords])"
    by (rule pairwiseDisjoint_snoc)
  moreover have "cellsOf existing \<inter> cellsOf (ys @ [(word, coords)]) = {}"
    using ys(4) disj u ys(1) by (auto simp: cellsOf_def)
  moreover have "set (ys @ [(word, coords)]) \<subseteq> cands" using ys(2) mem by simp
  moreover have "currentSolution s @ [(word, coords)] = existing @ (ys @ [(word, coords)])"
    using ys(1) by simp
  ultimately have "searchPlacement cands existing (currentSolution s @ [(word, coords)])"
    unfolding searchPlacement_def by (intro exI [of _ "ys @ [(word, coords)]"]) simp
  moreover have "set (foldl (\<lambda>used p. setAdd p used) (usedPositions s) coords)
                 = cellsOf (currentSolution s @ [(word, coords)])"
    using u by (auto simp: set_foldl_setAdd cellsOf_def)
  ultimately show ?thesis
    using d by (simp add: covInv_def placeWord_def distinct_foldl_setAdd)
qed

lemma reportStep_place:
  assumes "canPlaceWord coords s" and "(word, coords) \<in> cands"
  shows "reportStep cands ex s (placeWord word coords s)"
  unfolding reportStep_def
proof (intro impI)
  assume a: "covInv cands ex s \<and> 0 \<le> attempts s"
  then have "covInv cands ex (placeWord word coords s)"
    using covInv_place [OF _ assms] by simp
  moreover have "progressLog (placeWord word coords s) = progressLog s @ []"
    "attempts (placeWord word coords s) = attempts s"
    by (simp_all add: placeWord_def)
  ultimately show "covInv cands ex (placeWord word coords s)
    \<and> 0 \<le> attempts (placeWord word coords s)
    \<and> (\<exists>new. progressLog (placeWord word coords s) = progressLog s @ new
          \<and> (\<forall>e \<in> set new. reportsCurrent cands ex e))"
    using a by (intro conjI exI [of _ "[]"]) simp_all
qed

lemma reportStep_back:
  assumes step: "reportStep cands ex s s'"
    and f: "currentSolution s'' = currentSolution s" "usedPositions s'' = usedPositions s"
      "progressLog s'' = progressLog s'" "attempts s'' = attempts s'"
  shows "reportStep cands ex s s''"
  using step unfolding reportStep_def by (simp add: f(3,4) covInv_cong [OF f(1,2)])

lemma solve_reports:
  "solveRecursive C i s = Some (r, s') \<Longrightarrow> reportStep (candidatesOf C) ex s s'"
  "tryWords C i s = Some (r, s') \<Longrightarrow> reportStep (candidatesOf C) ex s s'"
proof (induct C i s and C i s arbitrary: r s' and r s' rule: solveRecursive_tryWords.induct)
  case (1 C wordIndex s)
  show ?case
  proof (cases "((attempts s + 1) mod 1000 = 0 \<and> shouldCancel C (attempts s + 1))
                \<or> int (length (usedPositions s)) = totalPositions C
                \<or> attempts s + 1 > maxAttempts C")
    case True
    with "1.prems" have "s' = stepState s"
      by (auto simp: solveRecursive_unfold split: if_splits)
    then show ?thesis by (simp add: reportStep_stepState)
  next
    case False
    with "1.prems" have eq: "tryWords C wordIndex (stepState s) = Some (r, s')"
      by (auto simp: solveRecursive_unfold)
    have "reportStep (candidatesOf C) ex (stepState s) s'"
      using False
      by (intro "1.hyps" [OF refl _ _ _ _ eq, unfolded Let_def])
         (auto simp: stepState_def pollProgress_fields Let_def)
    with reportStep_stepState show ?thesis by (rule reportStep_trans)
  qed
next
  case (2 C i s)
  show ?case
  proof (cases "i < length (prioritizedWords C)")
    case False
    with "2.prems" have "s' = s" by (subst (asm) tryWords.simps) simp
    then show ?thesis by (simp add: reportStep_same)
  next
    case True
    let ?word = "fst (prioritizedWords C ! i)" and ?coords = "fst (snd (prioritizedWords C ! i))"
    from True have mem: "(?word, ?coords) \<in> candidatesOf C"
      unfolding candidatesOf_def by (intro image_eqI [of _ _ "prioritizedWords C ! i"]) simp_all
    show ?thesis
    proof (cases "canPlaceWord ?coords s")
      case False
      with True "2.prems" have eq: "tryWords C (i + 1) s = Some (r, s')"
        by (subst (asm) tryWords.simps) (simp add: Let_def)
      from "2.hyps"(3) [OF True refl refl False eq] show ?thesis .
    next
      case can: True
      let ?s1 = "placeWord ?word ?coords s"
      from solve_invariant(1) [of C "i + 1" ?s1 ex] obtain r1 s1 where
        run: "solveRecursive C (i + 1) ?s1 = Some (r1, s1)"
        and frame: "\<not> r1 \<longrightarrow> currentSolution s1 = currentSolution ?s1
                       \<and> usedPositions s1 = usedPositions ?s1"
        by blast
      from "2.hyps"(1) [OF True refl refl can run]
      have step1: "reportStep (candidatesOf C) ex ?s1 s1" .
      have step: "reportStep (candidatesOf C) ex s s1"
        using reportStep_place [OF can mem] step1 by (rule reportStep_trans)
      show ?thesis
      proof (cases r1)
        case True
        with run \<open>i < length (prioritizedWords C)\<close> can
        have "tryWords C i s = Some (True, s1)"
          by (subst tryWords.simps) (simp add: Let_def)
        with "2.prems" step show ?thesis by simp
      next
        case False
        with frame have f: "currentSolution s1 = currentSolution ?s1"
          "usedPositions s1 = usedPositions ?s1" by simp_all
        from remove_place [OF can f] obtain s'' where
          rm: "removeWord s1 = Some s''" and
          s'': "currentSolution s'' = currentSolution s" "usedPositions s'' = usedPositions s"
            "progressLog s'' = progressLog s1" "attempts s'' = attempts s1"
          by blast
        have undo: "reportStep (candidatesOf C) ex s s''"
          using step s'' by (rule reportStep_back)
        from run False rm \<open>i < length (prioritizedWords C)\<close> can
        have "tryWords C i s = tryWords C (i + 1) s''"
          by (subst tryWords.simps) (simp add: Let_def)
        with "2.prems" have eq: "tryWords C (i + 1) s'' = Some (r, s')" by simp
        from "2.hyps"(2) [OF \<open>i < length (prioritizedWords C)\<close> refl refl can run refl False rm eq]
        have "reportStep (candidatesOf C) ex s'' s'" .
        with undo show ?thesis by (rule reportStep_trans)
      qed
    qed
  qed
qed

lemma poll_first_report:
  assumes poll: "(attempts s + 1) mod 1000 = 0"
    and run: "solveRecursive C i s = Some (r, s')"
  shows "\<exists>rest. progressLog s' = progressLog s
            @ (attempts s + 1, length (currentSolution s), length (usedPositions s)) # rest"
proof -
  let ?e = "(attempts s + 1, length (currentSolution s), length (usedPositions s))"
  have l: "progressLog (stepState s) = progressLog s @ [?e]"
    using poll by (simp add: stepState_log)
  from run have "s' = stepState s \<or> tryWords C i (stepState s) = Some (r, s')"
    by (auto simp: solveRecursive_unfold split: if_splits)
  then show ?thesis
  proof
    assume "s' = stepState s"
    with l show ?thesis by simp
  next
    assume t: "tryWords C i (stepState s) = Some (r, s')"
    from solve_invariant(2) [of C i "stepState s" "[]"] t
    have "logStep (stepState s) s'" by auto
    then obtain new where "progressLog s' = progressLog (stepState s) @ new"
      unfolding logStep_def by blast
    with l show ?thesis by simp
  qed
qed

lemma candidatesOf_solveEnvOf:
  "candidatesOf (solveEnvOf S allWords cancel maxAtt) = poolCandidates allWords"
  by (auto simp: candidatesOf_def solveEnvOf_def prioritizeWords_def poolCandidates_def
        prioritize_def image_image split: prod.splits intro!: image_eqI)

lemma initialState_covInv: "covInv cands ex (initialState ex)"
  by (simp add: covInv_def searchPlacement_def initialState_def Let_def foldl_addExisting
        cellsOf_def pairwiseDisjoint_def)

lemma initialState_coverage:
  "length (usedPositions (initialState ex)) = card (cellsOf ex)"
  "attempts (initialState ex) = 0"
proof -
  have "distinct (usedPositions (initialState ex))"
    "set (usedPositions (initialState ex)) = cellsOf ex"
    by (simp_all add: initialState_def Let_def foldl_addExisting)
  then show "length (usedPositions (initialState ex)) = card (cellsOf ex)"
    using distinct_card [of "usedPositions (initialState ex)"] by simp
  show "attempts (initialState ex) = 0"
    by (simp add: initialState_def Let_def foldl_addExisting)
qed

text \<open>
  Claim C3: when the committed words are pairwise cell-disjoint, \<open>solvePuzzle\<close> raises
  nothing, and every placement it returns is pairwise cell-disjoint and has the committed
  list as its prefix, the same pairs in the same positions.
\<close>

theorem solvePuzzle_disjoint_prefix:
  assumes "pairwiseDisjoint (map snd existingWords)"
  shows "\<exists>res. solvePuzzle S allWords existingWords cancel maxAtt = Inr res
           \<and> (\<forall>R. res = Some R \<longrightarrow>
                  pairwiseDisjoint (map snd R) \<and> take (length existingWords) R = existingWords)"
proof -
  let ?C = "solveEnvOf S allWords cancel maxAtt"
  let ?s0 = "initialState existingWords"
  from solve_invariant(1) [of ?C 0 ?s0 existingWords] initialState_inv [OF assms]
  obtain r s where run: "solveRecursive ?C 0 ?s0 = Some (r, s)"
    and inv: "solInv existingWords s" "bestInv existingWords s"
    by (auto simp: keepsInv_def)
  let ?res = "if r then Some (currentSolution s)
              else if length (bestSolution s) > 0 then Some (bestSolution s)
              else if length existingWords > 0 then Some existingWords else None"
  have eq: "solvePuzzle S allWords existingWords cancel maxAtt = Inr ?res"
    by (simp add: solvePuzzle_def solveRun_def run)
  from inv(1) obtain ys where cur: "pairwiseDisjoint (map snd (currentSolution s))"
    "currentSolution s = existingWords @ ys"
    unfolding solInv_def by blast
  have cur_ok: "pairwiseDisjoint (map snd (currentSolution s))
                \<and> take (length existingWords) (currentSolution s) = existingWords"
    using cur by simp
  have best_ok: "pairwiseDisjoint (map snd (bestSolution s))
                 \<and> take (length existingWords) (bestSolution s) = existingWords"
    if "bestSolution s \<noteq> []"
  proof -
    from inv(2) that obtain zs where "pairwiseDisjoint (map snd (bestSolution s))"
      "bestSolution s = existingWords @ zs"
      unfolding bestInv_def by blast
    then show ?thesis by simp
  qed
  have "pairwiseDisjoint (map snd R) \<and> take (length existingWords) R = existingWords"
    if "?res = Some R" for R
  proof (cases r)
    case True
    with that have "R = currentSolution s" by simp
    with cur_ok show ?thesis by simp
  next
    case False
    show ?thesis
    proof (cases "bestSolution s = []")
      case True
      with False that have "R = existingWords" by (simp split: if_splits)
      with assms show ?thesis by simp
    next
      case nonempty: False
      with False that have "R = bestSolution s" by simp
      with best_ok [OF nonempty] show ?thesis by simp
    qed
  qed
  with eq show ?thesis by blast
qed

text \<open>
  Claim C4, as the code has it: every solve returns, and each progress callback reports the
  current placement of the poll, not the best one. Every entry of the log has a positive
  multiple of 1000 as its attempt count, and its word count and coverage are the number of
  words and the number of cells of one placement of the search: the committed words followed
  by pairwise disjoint candidates of the pool. The best coverage that the solver records is
  the running maximum of the committed coverage and the reported values, so it never
  decreases, and the attempt counts of the callbacks increase strictly; the reported values
  themselves are not monotone. The last part says which placement a callback reports: a call
  of \<open>solveRecursive\<close> that counts an attempt divisible by 1000 first adds to the log the
  new attempt count with the number of words and the number of occupied cells of the state in
  which it was called.
\<close>

theorem progress_reports_current_coverage:
  "\<exists>r s. solveRun S allWords existingWords cancel maxAtt = Some (r, s)
      \<and> (\<forall>e \<in> set (progressCalls S allWords existingWords cancel maxAtt).
            reportsCurrent (poolCandidates allWords) existingWords e)
      \<and> bestCoverage s
          = fold max (map (\<lambda>e. snd (snd e)) (progressCalls S allWords existingWords cancel maxAtt))
              (card (cellsOf existingWords))
      \<and> sorted_wrt (<) (map fst (progressCalls S allWords existingWords cancel maxAtt))
      \<and> (\<forall>i s0 r1 s1.
            (attempts s0 + 1) mod 1000 = 0
            \<and> solveRecursive (solveEnvOf S allWords cancel maxAtt) i s0 = Some (r1, s1)
            \<longrightarrow> (\<exists>rest. progressLog s1 = progressLog s0
                    @ (attempts s0 + 1, length (currentSolution s0), length (usedPositions s0))
                      # rest))"
proof -
  let ?C = "solveEnvOf S allWords cancel maxAtt"
  let ?s0 = "initialState existingWords"
  from solve_invariant(1) [of ?C 0 ?s0 existingWords]
  obtain r s where run: "solveRecursive ?C 0 ?s0 = Some (r, s)" and log: "logStep ?s0 s"
    by blast
  have calls: "progressCalls S allWords existingWords cancel maxAtt = progressLog s"
    by (simp add: progressCalls_def solveRun_def run)
  from solve_reports(1) [OF run, of existingWords]
  have "reportStep (poolCandidates allWords) existingWords ?s0 s"
    by (simp add: candidatesOf_solveEnvOf)
  then have rep: "\<forall>e \<in> set (progressLog s). reportsCurrent (poolCandidates allWords) existingWords e"
    by (auto simp: reportStep_def initialState_covInv initialState_coverage(2)
          initialState_fields(1))
  from log have best: "bestCoverage s
      = fold max (map (\<lambda>e. snd (snd e)) (progressLog s)) (card (cellsOf existingWords))"
    and sorted: "sorted_wrt (<) (map fst (progressLog s))"
    by (auto simp: logStep_def initialState_fields initialState_coverage(1))
  have first: "\<forall>i s0 r1 s1.
            (attempts s0 + 1) mod 1000 = 0 \<and> solveRecursive ?C i s0 = Some (r1, s1)
            \<longrightarrow> (\<exists>rest. progressLog s1 = progressLog s0
                    @ (attempts s0 + 1, length (currentSolution s0), length (usedPositions s0))
                      # rest)"
  proof (intro allI impI)
    fix i s0 r1 s1
    assume "(attempts s0 + 1) mod 1000 = 0 \<and> solveRecursive ?C i s0 = Some (r1, s1)"
    then show "\<exists>rest. progressLog s1 = progressLog s0
                    @ (attempts s0 + 1, length (currentSolution s0), length (usedPositions s0))
                      # rest"
      using poll_first_report [of s0 ?C i r1 s1] by simp
  qed
  show ?thesis
    unfolding calls solveRun_def
    using run rep best sorted first by blast
qed


text \<open>One committed word on the right column of a 2 by 3 grid, \<open>CATS\<close> in the pool.\<close>

theorem solvePuzzle_disjoint_prefix_witness:
  "pairwiseDisjoint (map snd [(''XY'', [(0, 2), (1, 2)])])
   \<and> solvePuzzle \<lparr>grid = [[''C'', ''A'', ''X''], [''T'', ''S'', ''Y'']], wordSet = [''CATS'', ''XY''],
          prefixTree = JObj [], rows = 2, cols = 3\<rparr>
        [(''CATS'', [(0, 0), (0, 1), (1, 0), (1, 1)], 4)] [(''XY'', [(0, 2), (1, 2)])]
        (\<lambda>_. False) 100000
      = Inr (Some [(''XY'', [(0, 2), (1, 2)]), (''CATS'', [(0, 0), (0, 1), (1, 0), (1, 1)])])
   \<and> pairwiseDisjoint (map snd [(''XY'', [(0, 2), (1, 2)]), (''CATS'', [(0, 0), (0, 1), (1, 0), (1, 1)])])"
proof -
  let ?S = "\<lparr>grid = [[''C'', ''A'', ''X''], [''T'', ''S'', ''Y'']], wordSet = [''CATS'', ''XY''],
          prefixTree = JObj [], rows = 2, cols = 3\<rparr>"
  let ?ex = "[(''XY'', [(0, 2), (1, 2) :: pos])]"
  let ?pool = "[(''CATS'', [(0, 0), (0, 1), (1, 0), (1, 1)], 4)] :: poolEntry list"
  have h: "pairwiseDisjoint (map snd ?ex)" by (simp add: pairwiseDisjoint_def)
  have run: "solvePuzzle ?S ?pool ?ex (\<lambda>_. False) 100000
      = Inr (Some [(''XY'', [(0, 2), (1, 2)]), (''CATS'', [(0, 0), (0, 1), (1, 0), (1, 1)])])"
    by code_simp
  from solvePuzzle_disjoint_prefix [OF h, of ?S ?pool "\<lambda>_. False" 100000] h run
  show ?thesis by simp
qed

text \<open>
  A run with two callbacks. \<open>ST\<close> is committed on a 1 by 14 grid and the pool has the
  eleven one-cell candidates of the cells 2 to 12; the last cell is never covered, so the
  search walks through all 2048 subsets of the pool. The callback at attempt 1000 reports 6
  words on 7 cells, the one at attempt 2000 reports 4 words on 5 cells, below the recorded
  best of 7. The last equation is one call that counts attempt 1000, made with \<open>ST\<close> and
  \<open>N\<close> placed: it reports 2 words on 3 cells.
\<close>

theorem progress_reports_current_coverage_witness:
  "solveRun
     \<lparr>grid = [[''S'', ''T'', ''R'', ''A'', ''N'', ''D'', ''G'', ''L'', ''O'', ''V'', ''E'', ''Y'', ''K'', ''M'']],
      wordSet = [], prefixTree = JObj [], rows = 1, cols = 14\<rparr>
     [(''R'', [(0, 2)], 1), (''A'', [(0, 3)], 1), (''N'', [(0, 4)], 1), (''D'', [(0, 5)], 1),
      (''G'', [(0, 6)], 1), (''L'', [(0, 7)], 1), (''O'', [(0, 8)], 1), (''V'', [(0, 9)], 1),
      (''E'', [(0, 10)], 1), (''Y'', [(0, 11)], 1), (''K'', [(0, 12)], 1)]
     [(''ST'', [(0, 0), (0, 1)])] (\<lambda>_. False) 100000
   = Some (False,
       \<lparr>usedPositions = [(0, 0), (0, 1)], currentSolution = [(''ST'', [(0, 0), (0, 1)])],
        attempts = 2048,
        bestSolution = [(''ST'', [(0, 0), (0, 1)]), (''R'', [(0, 2)]), (''O'', [(0, 8)]),
                        (''V'', [(0, 9)]), (''E'', [(0, 10)]), (''K'', [(0, 12)])],
        bestCoverage = 7, progressLog = [(1000, 6, 7), (2000, 4, 5)]\<rparr>)
   \<and> progressCalls
     \<lparr>grid = [[''S'', ''T'', ''R'', ''A'', ''N'', ''D'', ''G'', ''L'', ''O'', ''V'', ''E'', ''Y'', ''K'', ''M'']],
      wordSet = [], prefixTree = JObj [], rows = 1, cols = 14\<rparr>
     [(''R'', [(0, 2)], 1), (''A'', [(0, 3)], 1), (''N'', [(0, 4)], 1), (''D'', [(0, 5)], 1),
      (''G'', [(0, 6)], 1), (''L'', [(0, 7)], 1), (''O'', [(0, 8)], 1), (''V'', [(0, 9)], 1),
      (''E'', [(0, 10)], 1), (''Y'', [(0, 11)], 1), (''K'', [(0, 12)], 1)]
     [(''ST'', [(0, 0), (0, 1)])] (\<lambda>_. False) 100000
   = [(1000, 6, 7), (2000, 4, 5)]
   \<and> reportsCurrent
       (poolCandidates
          [(''R'', [(0, 2)], 1), (''A'', [(0, 3)], 1), (''N'', [(0, 4)], 1), (''D'', [(0, 5)], 1),
           (''G'', [(0, 6)], 1), (''L'', [(0, 7)], 1), (''O'', [(0, 8)], 1), (''V'', [(0, 9)], 1),
           (''E'', [(0, 10)], 1), (''Y'', [(0, 11)], 1), (''K'', [(0, 12)], 1)])
       [(''ST'', [(0, 0), (0, 1)])] (1000, 6, 7)
   \<and> reportsCurrent
       (poolCandidates
          [(''R'', [(0, 2)], 1), (''A'', [(0, 3)], 1), (''N'', [(0, 4)], 1), (''D'', [(0, 5)], 1),
           (''G'', [(0, 6)], 1), (''L'', [(0, 7)], 1), (''O'', [(0, 8)], 1), (''V'', [(0, 9)], 1),
           (''E'', [(0, 10)], 1), (''Y'', [(0, 11)], 1), (''K'', [(0, 12)], 1)])
       [(''ST'', [(0, 0), (0, 1)])] (2000, 4, 5)
   \<and> fold max (map (\<lambda>e. snd (snd e)) [(1000 :: int, 6 :: nat, 7 :: nat), (2000, 4, 5)])
        (card (cellsOf [(''ST'', [(0, 0), (0, 1)])])) = 7
   \<and> solveRecursive
       (solveEnvOf
          \<lparr>grid = [[''S'', ''T'', ''R'', ''A'', ''N'', ''D'', ''G'', ''L'', ''O'', ''V'', ''E'', ''Y'', ''K'', ''M'']],
           wordSet = [], prefixTree = JObj [], rows = 1, cols = 14\<rparr>
          [(''R'', [(0, 2)], 1), (''A'', [(0, 3)], 1), (''N'', [(0, 4)], 1), (''D'', [(0, 5)], 1),
           (''G'', [(0, 6)], 1), (''L'', [(0, 7)], 1), (''O'', [(0, 8)], 1), (''V'', [(0, 9)], 1),
           (''E'', [(0, 10)], 1), (''Y'', [(0, 11)], 1), (''K'', [(0, 12)], 1)]
          (\<lambda>_. False) 100000)
       10
       \<lparr>usedPositions = [(0, 0), (0, 1), (0, 4)],
        currentSolution = [(''ST'', [(0, 0), (0, 1)]), (''N'', [(0, 4)])],
        attempts = 999, bestSolution = [], bestCoverage = 2, progressLog = []\<rparr>
     = Some (False,
         \<lparr>usedPositions = [(0, 0), (0, 1), (0, 4)],
          currentSolution = [(''ST'', [(0, 0), (0, 1)]), (''N'', [(0, 4)])],
          attempts = 1001,
          bestSolution = [(''ST'', [(0, 0), (0, 1)]), (''N'', [(0, 4)])],
          bestCoverage = 3, progressLog = [(1000, 2, 3)]\<rparr>)"
proof -
  let ?S = "\<lparr>grid = [[''S'', ''T'', ''R'', ''A'', ''N'', ''D'', ''G'', ''L'', ''O'', ''V'', ''E'', ''Y'', ''K'', ''M'']],
      wordSet = [], prefixTree = JObj [], rows = 1, cols = 14\<rparr>"
  let ?pool = "[(''R'', [(0, 2)], 1), (''A'', [(0, 3)], 1), (''N'', [(0, 4)], 1), (''D'', [(0, 5)], 1),
      (''G'', [(0, 6)], 1), (''L'', [(0, 7)], 1), (''O'', [(0, 8)], 1), (''V'', [(0, 9)], 1),
      (''E'', [(0, 10)], 1), (''Y'', [(0, 11)], 1), (''K'', [(0, 12)], 1)] :: poolEntry list"
  let ?ex = "[(''ST'', [(0, 0), (0, 1) :: pos])]"
  let ?final = "\<lparr>usedPositions = [(0, 0), (0, 1)], currentSolution = [(''ST'', [(0, 0), (0, 1)])],
        attempts = 2048,
        bestSolution = [(''ST'', [(0, 0), (0, 1)]), (''R'', [(0, 2)]), (''O'', [(0, 8)]),
                        (''V'', [(0, 9)]), (''E'', [(0, 10)]), (''K'', [(0, 12)])],
        bestCoverage = 7, progressLog = [(1000, 6, 7), (2000, 4, 5)]\<rparr>"
  let ?s0 = "\<lparr>usedPositions = [(0, 0), (0, 1), (0, 4)],
        currentSolution = [(''ST'', [(0, 0), (0, 1)]), (''N'', [(0, 4)])],
        attempts = 999, bestSolution = [], bestCoverage = 2, progressLog = []\<rparr>"
  let ?s1 = "\<lparr>usedPositions = [(0, 0), (0, 1), (0, 4)],
          currentSolution = [(''ST'', [(0, 0), (0, 1)]), (''N'', [(0, 4)])],
          attempts = 1001,
          bestSolution = [(''ST'', [(0, 0), (0, 1)]), (''N'', [(0, 4)])],
          bestCoverage = 3, progressLog = [(1000, 2, 3)]\<rparr>"
  have run: "solveRun ?S ?pool ?ex (\<lambda>_. False) 100000 = Some (False, ?final)"
    by code_simp
  have call: "solveRecursive (solveEnvOf ?S ?pool (\<lambda>_. False) 100000) 10 ?s0 = Some (False, ?s1)"
    by code_simp
  have calls: "progressCalls ?S ?pool ?ex (\<lambda>_. False) 100000 = [(1000, 6, 7), (2000, 4, 5)]"
    by (simp add: progressCalls_def run)
  from progress_reports_current_coverage [of ?S ?pool ?ex "\<lambda>_. False" 100000]
  obtain r s where a: "solveRun ?S ?pool ?ex (\<lambda>_. False) 100000 = Some (r, s)"
    and b: "\<forall>e \<in> set (progressCalls ?S ?pool ?ex (\<lambda>_. False) 100000).
              reportsCurrent (poolCandidates ?pool) ?ex e"
    and c: "bestCoverage s
            = fold max (map (\<lambda>e. snd (snd e)) (progressCalls ?S ?pool ?ex (\<lambda>_. False) 100000))
                (card (cellsOf ?ex))"
    and d: "\<forall>i s0 r1 s1.
            (attempts s0 + 1) mod 1000 = 0
            \<and> solveRecursive (solveEnvOf ?S ?pool (\<lambda>_. False) 100000) i s0 = Some (r1, s1)
            \<longrightarrow> (\<exists>rest. progressLog s1 = progressLog s0
                    @ (attempts s0 + 1, length (currentSolution s0), length (usedPositions s0))
                      # rest)"
    by blast
  from a run have s: "s = ?final" by simp
  from b have r1: "reportsCurrent (poolCandidates ?pool) ?ex (1000, 6, 7)"
    and r2: "reportsCurrent (poolCandidates ?pool) ?ex (2000, 4, 5)"
    unfolding calls by simp_all
  from c have m: "fold max (map (\<lambda>e. snd (snd e)) [(1000 :: int, 6 :: nat, 7 :: nat), (2000, 4, 5)])
        (card (cellsOf ?ex)) = 7"
    unfolding calls s by simp
  from run calls r1 r2 m call show ?thesis by (intro conjI)
qed

text \<open>
  Claim C4 as stated fails: with eleven one-cell candidates on a 1 by 12 grid the callback
  at attempt 1000 reports 5 covered cells and the one at attempt 2000 reports 3. The
  candidates are pairwise disjoint and never cover the grid, so the search walks through
  all 2048 subsets of the pool in depth-first order; the corner candidate of cell 0 has
  priority -1004 and the others -1002, so the priority order is the order of the cells.
  Attempt 1000 has the candidates of the cells 0, 6, 7, 8 and 10 placed, attempt 2000
  those of the cells 5, 6 and 9.
\<close>

theorem progress_coverage_decreases_counterexample:
  "progressCalls
     \<lparr>grid = [[''S'', ''T'', ''R'', ''A'', ''N'', ''D'', ''G'', ''L'', ''O'', ''V'', ''E'', ''Y'']],
      wordSet = [], prefixTree = JObj [], rows = 1, cols = 12\<rparr>
     [(''S'', [(0, 0)], 1), (''T'', [(0, 1)], 1), (''R'', [(0, 2)], 1), (''A'', [(0, 3)], 1),
      (''N'', [(0, 4)], 1), (''D'', [(0, 5)], 1), (''G'', [(0, 6)], 1), (''L'', [(0, 7)], 1),
      (''O'', [(0, 8)], 1), (''V'', [(0, 9)], 1), (''E'', [(0, 10)], 1)]
     [] (\<lambda>_. False) 100000
   = [(1000, 5, 5), (2000, 3, 3)]"
  by code_simp

text \<open>
  Claim C5 at a 1 by 13 grid with a cancel hook that always answers true. The priority
  order is \<open>ST\<close>, \<open>TR\<close>, \<open>S\<close>, \<open>K\<close>, then the candidates of the cells 3 to 11.
  Under \<open>ST\<close> neither \<open>TR\<close> nor \<open>S\<close> fits and cell 2 stays free, so the attempts 2
  to 1025 walk through the subsets of the other ten candidates. The poll at attempt 1000
  makes that call of \<open>solveRecursive\<close> return false; its caller takes the word back
  and goes on with the next one. After \<open>ST\<close> is taken back, \<open>TR\<close> and then every other
  candidate fit, and attempt 1037 finds all 13 cells covered: \<open>solvePuzzle\<close> returns
  this complete placement, found after the cancel.
\<close>

theorem cancel_does_not_stop_search:
  "solvePuzzle
     \<lparr>grid = [[''S'', ''T'', ''R'', ''A'', ''N'', ''D'', ''G'', ''L'', ''O'', ''V'', ''E'', ''Y'', ''K'']],
      wordSet = [], prefixTree = JObj [], rows = 1, cols = 13\<rparr>
     [(''ST'', [(0, 0), (0, 1)], 2),
      (''TR'', [(0, 1), (0, 2)], 2),
      (''S'', [(0, 0)], 1),
      (''A'', [(0, 3)], 1),
      (''N'', [(0, 4)], 1),
      (''D'', [(0, 5)], 1),
      (''G'', [(0, 6)], 1),
      (''L'', [(0, 7)], 1),
      (''O'', [(0, 8)], 1),
      (''V'', [(0, 9)], 1),
      (''E'', [(0, 10)], 1),
      (''Y'', [(0, 11)], 1),
      (''K'', [(0, 12)], 1)]
     [] (\<lambda>_. True) 100000
   = Inr (Some
       [(''TR'', [(0, 1), (0, 2)]),
        (''S'', [(0, 0)]),
        (''K'', [(0, 12)]),
        (''A'', [(0, 3)]),
        (''N'', [(0, 4)]),
        (''D'', [(0, 5)]),
        (''G'', [(0, 6)]),
        (''L'', [(0, 7)]),
        (''O'', [(0, 8)]),
        (''V'', [(0, 9)]),
        (''E'', [(0, 10)]),
        (''Y'', [(0, 11)])])
   \<and> progressCalls
     \<lparr>grid = [[''S'', ''T'', ''R'', ''A'', ''N'', ''D'', ''G'', ''L'', ''O'', ''V'', ''E'', ''Y'', ''K'']],
      wordSet = [], prefixTree = JObj [], rows = 1, cols = 13\<rparr>
     [(''ST'', [(0, 0), (0, 1)], 2),
      (''TR'', [(0, 1), (0, 2)], 2),
      (''S'', [(0, 0)], 1),
      (''A'', [(0, 3)], 1),
      (''N'', [(0, 4)], 1),
      (''D'', [(0, 5)], 1),
      (''G'', [(0, 6)], 1),
      (''L'', [(0, 7)], 1),
      (''O'', [(0, 8)], 1),
      (''V'', [(0, 9)], 1),
      (''E'', [(0, 10)], 1),
      (''Y'', [(0, 11)], 1),
      (''K'', [(0, 12)], 1)]
     [] (\<lambda>_. True) 100000
   = [(1000, 5, 6)]"
proof -
  let ?S = "\<lparr>grid = [[''S'', ''T'', ''R'', ''A'', ''N'', ''D'', ''G'', ''L'', ''O'', ''V'', ''E'', ''Y'', ''K'']],
      wordSet = [], prefixTree = JObj [], rows = 1, cols = 13\<rparr>"
  let ?pool = "[(''ST'', [(0, 0), (0, 1)], 2),
      (''TR'', [(0, 1), (0, 2)], 2),
      (''S'', [(0, 0)], 1),
      (''A'', [(0, 3)], 1),
      (''N'', [(0, 4)], 1),
      (''D'', [(0, 5)], 1),
      (''G'', [(0, 6)], 1),
      (''L'', [(0, 7)], 1),
      (''O'', [(0, 8)], 1),
      (''V'', [(0, 9)], 1),
      (''E'', [(0, 10)], 1),
      (''Y'', [(0, 11)], 1),
      (''K'', [(0, 12)], 1)] :: poolEntry list"
  have run: "map_option (\<lambda>x. (fst x, currentSolution (snd x), progressLog (snd x)))
               (solveRun ?S ?pool [] (\<lambda>_. True) 100000)
     = Some (True,
       [(''TR'', [(0, 1), (0, 2)]),
        (''S'', [(0, 0)]),
        (''K'', [(0, 12)]),
        (''A'', [(0, 3)]),
        (''N'', [(0, 4)]),
        (''D'', [(0, 5)]),
        (''G'', [(0, 6)]),
        (''L'', [(0, 7)]),
        (''O'', [(0, 8)]),
        (''V'', [(0, 9)]),
        (''E'', [(0, 10)]),
        (''Y'', [(0, 11)])],
        [(1000, 5, 6)])"
    by code_simp
  then show ?thesis
    by (auto simp: solvePuzzle_def progressCalls_def split: option.splits)
qed

section \<open>The order of discovery in the enumerator\<close>

lemma recordStep_pair: "recordStep E m (w, p) = recordWord E w p m"
  by (simp add: recordStep_def)

lemma dfs_visits:
  "dfs E row col w p v uw
     = (case dfsVisits E row col w p v of Inl e \<Rightarrow> Inl e | Inr vs \<Rightarrow> Inr (foldl (recordStep E) uw vs))"
  "dfsDirs E ds row col w p v uw
     = (case dfsDirsVisits E ds row col w p v of Inl e \<Rightarrow> Inl e
        | Inr vs \<Rightarrow> Inr (foldl (recordStep E) uw vs))"
proof (induct E row col w p v uw and E ds row col w p v uw rule: dfs_dfsDirs.induct)
  case (1 E row col w p v uw)
  show ?case
  proof (cases "maxLength E \<le> int (length w) \<or> \<not> hasPrefix (this E) w")
    case True
    then show ?thesis
      by (auto simp: dfs.simps dfsVisits.simps Let_def recordStep_pair)
  next
    case False
    with "1.hyps" [OF refl] show ?thesis
      by (auto simp: dfs.simps dfsVisits.simps Let_def recordStep_pair split: sum.splits)
  qed
next
  case (2 E row col w p v uw)
  show ?case by (simp add: dfsDirs.simps dfsDirsVisits.simps)
next
  case (3 E d ds row col w p v uw)
  let ?r = "row + fst d" and ?c = "col + snd d"
  show ?case
  proof (cases "skipCell E v ?r ?c")
    case True
    with "3.hyps"(1) [OF refl refl] show ?thesis
      by (simp add: dfsDirs.simps dfsDirsVisits.simps Let_def)
  next
    case False
    show ?thesis
    proof (cases "cellAt (grid (this E)) ?r ?c")
      case None
      with False show ?thesis by (simp add: dfsDirs.simps dfsDirsVisits.simps Let_def)
    next
      case (Some cell)
      note h2 = "3.hyps"(2) [OF refl refl False Some]
      show ?thesis
      proof (cases "dfsVisits E ?r ?c (w @ toUpperCase cell) (p @ [(?r, ?c)]) (insert (?r, ?c) v)")
        case (Inl e)
        with h2 False Some show ?thesis
          by (simp add: dfsDirs.simps dfsDirsVisits.simps Let_def)
      next
        case (Inr vs1)
        with h2 have sub: "dfs E ?r ?c (w @ toUpperCase cell) (p @ [(?r, ?c)]) (insert (?r, ?c) v) uw
                           = Inr (foldl (recordStep E) uw vs1)" by simp
        from "3.hyps"(3) [OF refl refl False Some sub] Inr sub False Some show ?thesis
          by (simp add: dfsDirs.simps dfsDirsVisits.simps Let_def split: sum.splits)
      qed
    qed
  qed
qed


lemma map_of_mapSet: "map_of (mapSet k v m) k' = (if k' = k then Some v else map_of m k')"
  by (induction m) auto

lemma keys_mapSet: "map fst (mapSet k v m) = setAdd k (map fst m)"
  by (induction m) (force simp: setAdd_def)+

lemma map_of_None_keys: "(map_of m k = None) = (k \<notin> set (map fst m))"
  by (simp add: map_of_eq_None_iff)

lemma keys_recordWord:
  "map fst (recordWord E w p m) = (if qualifies E w then setAdd w (map fst m) else map fst m)"
proof (cases "map_of m w")
  case None
  then show ?thesis by (simp add: recordWord_def qualifies_def keys_mapSet)
next
  case (Some old)
  then have "w \<in> set (map fst m)" using map_of_None_keys [of m w] by simp
  then have "setAdd w (map fst m) = map fst m" by (simp add: setAdd_def)
  with Some show ?thesis by (simp add: recordWord_def qualifies_def keys_mapSet)
qed

lemma map_of_recordWord:
  "map_of (recordWord E w' p' m) w
     = (if w' = w \<and> qualifies E w then stepOpt (map_of m w) p' else map_of m w)"
  by (cases "map_of m w'")
     (auto simp: recordWord_def qualifies_def stepOpt_def map_of_mapSet)

lemma keys_fold:
  "map fst (foldl (recordStep E) m vs)
     = foldl (\<lambda>ks w. setAdd w ks) (map fst m) (filter (qualifies E) (map fst vs))"
  by (induction vs arbitrary: m) (simp_all add: recordStep_def keys_recordWord)

lemma map_of_fold:
  "qualifies E w \<Longrightarrow>
   map_of (foldl (recordStep E) m vs) w
     = foldl stepOpt (map_of m w) (map snd (filter (\<lambda>e. fst e = w) vs))"
  by (induction vs arbitrary: m) (simp_all add: recordStep_def map_of_recordWord)

lemma set_firstOccurrences: "set (firstOccurrences ws) = set ws"
  by (simp add: firstOccurrences_def)

lemma firstOccurrences_snoc:
  "firstOccurrences (ws @ [w]) = setAdd w (firstOccurrences ws)"
  by (simp add: firstOccurrences_def setAdd_def)

lemma foldl_setAdd_firstOccurrences:
  "foldl (\<lambda>ks w. setAdd w ks) [] ws = firstOccurrences ws"
proof (induction ws rule: rev_induct)
  case Nil
  show ?case by (simp add: firstOccurrences_def)
next
  case (snoc w ws)
  then show ?case by (simp add: firstOccurrences_snoc)
qed

lemma foldl_stepOpt:
  "ps \<noteq> [] \<Longrightarrow> \<exists>p. foldl stepOpt None ps = Some p \<and> firstLongest ps p"
proof (induction ps rule: rev_induct)
  case Nil
  then show ?case by simp
next
  case (snoc q ps)
  show ?case
  proof (cases "ps = []")
    case True
    then show ?thesis by (simp add: stepOpt_def firstLongest_def)
  next
    case False
    from snoc.IH [OF False] obtain p0 i where
      f: "foldl stepOpt None ps = Some p0" and i: "i < length ps" "ps ! i = p0"
      and le: "\<forall>j \<in> {..<length ps}. length (ps ! j) \<le> length p0"
      and lt: "\<forall>j \<in> {..<i}. length (ps ! j) < length p0"
      unfolding firstLongest_def by auto
    have le: "length (ps ! j) \<le> length p0" if "j < length ps" for j
      using le that by simp
    have lt: "length (ps ! j) < length p0" if "j < i" for j
      using lt that by simp
    show ?thesis
    proof (cases "length q > length p0")
      case True
      with f have r: "foldl stepOpt None (ps @ [q]) = Some q" by (simp add: stepOpt_def)
      have "firstLongest (ps @ [q]) q"
        unfolding firstLongest_def
      proof (intro bexI [of _ "length ps"] conjI ballI)
        show "(ps @ [q]) ! length ps = q" by simp
      next
        fix j assume "j \<in> {..<length (ps @ [q])}"
        then show "length ((ps @ [q]) ! j) \<le> length q"
          using le [of j] True by (cases "j < length ps") (auto simp: nth_append less_Suc_eq)
      next
        fix j assume "j \<in> {..<length ps}"
        then show "length ((ps @ [q]) ! j) < length q"
          using le [of j] True by (auto simp: nth_append)
      next
        show "length ps \<in> {..<length (ps @ [q])}" by simp
      qed
      with r show ?thesis by blast
    next
      case False
      with f have r: "foldl stepOpt None (ps @ [q]) = Some p0" by (simp add: stepOpt_def)
      have "firstLongest (ps @ [q]) p0"
        unfolding firstLongest_def
      proof (intro bexI [of _ i] conjI ballI)
        show "(ps @ [q]) ! i = p0" using i by (simp add: nth_append)
      next
        fix j assume "j \<in> {..<length (ps @ [q])}"
        then show "length ((ps @ [q]) ! j) \<le> length p0"
          using le [of j] False by (cases "j < length ps") (auto simp: nth_append less_Suc_eq)
      next
        fix j assume "j \<in> {..<i}"
        then show "length ((ps @ [q]) ! j) < length p0"
          using lt [of j] i by (auto simp: nth_append)
      next
        show "i \<in> {..<length (ps @ [q])}" using i by simp
      qed
      with r show ?thesis by blast
    qed
  qed
qed

lemma foldl_stepOpt_Nil: "foldl stepOpt None ps = Some p \<Longrightarrow> ps \<noteq> []"
  by auto


lemma findWordsDFS_visits:
  assumes "findWordsDFS S startRow startCol used bl minLen maxLen = Inr result"
  shows "result = sortByLength (foldl (recordStep \<lparr>this = S, usedPos = used,
                     blacklistedWords = bl, minLength = minLen, maxLength = maxLen\<rparr>) []
                   (visitedNodes S startRow startCol used bl minLen maxLen))"
proof (cases "startRow < 0 \<or> startRow \<ge> rows S \<or> startCol < 0 \<or> startCol \<ge> cols S
              \<or> (startRow, startCol) \<in> used")
  case True
  with assms have "result = []" by (auto simp: findWordsDFS_def split: if_splits)
  moreover from True have "visitedNodes S startRow startCol used bl minLen maxLen = []"
    by (auto simp: visitedNodes_def)
  ultimately show ?thesis by (simp add: sortByLength_def)
next
  case False
  with assms show ?thesis
    by (auto simp: findWordsDFS_def visitedNodes_def dfs_visits(1) split: option.splits sum.splits)
qed

lemma keys_of_visits:
  "map fst (foldl (recordStep E) [] vs) = firstOccurrences (filter (qualifies E) (map fst vs))"
  by (simp add: keys_fold foldl_setAdd_firstOccurrences)

lemma distinct_firstOccurrences: "distinct (firstOccurrences ws)"
  by (simp add: firstOccurrences_def)

text \<open>
  Claim C7: the list returned by \<open>findWordsDFS\<close> is sorted by word length in descending
  order, and for every length the words of that length appear in the order in which the
  search first discovered them, that is, in the order of their first occurrences among
  the qualifying words of the visited nodes.
\<close>

theorem findWordsDFS_sorted_by_discovery:
  assumes "findWordsDFS S startRow startCol used bl minLen maxLen = Inr result"
  shows "sorted_wrt (\<lambda>a b. length (fst a) \<ge> length (fst b)) result
         \<and> (\<forall>k. filter (\<lambda>w. length w = k) (map fst result)
                = filter (\<lambda>w. length w = k)
                    (firstOccurrences (filter (qualifies \<lparr>this = S, usedPos = used,
                         blacklistedWords = bl, minLength = minLen, maxLength = maxLen\<rparr>)
                       (map fst (visitedNodes S startRow startCol used bl minLen maxLen)))))"
proof -
  let ?E = "\<lparr>this = S, usedPos = used, blacklistedWords = bl, minLength = minLen,
             maxLength = maxLen\<rparr>"
  let ?vs = "visitedNodes S startRow startCol used bl minLen maxLen"
  let ?uw = "foldl (recordStep ?E) [] ?vs"
  let ?f = "\<lambda>e :: string \<times> pos list. - int (length (fst e))"
  have res: "result = sort_key ?f ?uw"
    using findWordsDFS_visits [OF assms] by (simp add: sortByLength_def)
  have "sorted (map ?f result)" unfolding res by (rule sorted_sort_key)
  then have s: "sorted_wrt (\<lambda>a b. length (fst a) \<ge> length (fst b)) result"
    by (simp add: sorted_map)
  have st: "filter (\<lambda>w. length w = k) (map fst result)
            = filter (\<lambda>w. length w = k) (firstOccurrences (filter (qualifies ?E) (map fst ?vs)))"
    for k
  proof -
    have "filter (\<lambda>w. length w = k) (map fst result)
          = map fst (filter (\<lambda>e. ?f e = - int k) result)"
      by (simp add: filter_map o_def)
    also have "\<dots> = map fst (filter (\<lambda>e. ?f e = - int k) ?uw)"
      unfolding res by (simp only: sort_key_stable)
    also have "\<dots> = filter (\<lambda>w. length w = k) (map fst ?uw)"
      by (simp add: filter_map o_def)
    finally show ?thesis by (simp only: keys_of_visits)
  qed
  from s st show ?thesis by blast
qed

lemma pathWord_length:
  "singleLetterCells g \<Longrightarrow> pathWord g q = Some w \<Longrightarrow> length w = length q"
proof (induction q arbitrary: w)
  case Nil
  then show ?case by simp
next
  case (Cons c cs)
  from Cons.prems(2) obtain cell w1 where
    c: "cellAt g (fst c) (snd c) = Some cell" and w1: "pathWord g cs = Some w1" and w: "w = cell @ w1"
    by (auto split: option.splits)
  from cellAt_mem [OF c] Cons.prems(1) have "length cell = 1"
    by (auto simp: singleLetterCells_def)
  with Cons.IH [OF Cons.prems(1) w1] w show ?case by simp
qed

lemma spelled_length:
  assumes "singleLetterCells g" and "map_option toUpperCase (pathWord g q) = Some w"
  shows "length q = length w"
proof -
  from assms(2) obtain w0 where "pathWord g q = Some w0" "w = toUpperCase w0"
    by (cases "pathWord g q") auto
  with pathWord_length [OF assms(1), of q w0] show ?thesis by (simp add: length_toUpperCase)
qed

lemma findWordsDFS_spelled:
  assumes res: "findWordsDFS S startRow startCol used bl minLen maxLen = Inr result"
    and mem: "(w, p) \<in> set result"
  shows "map_option toUpperCase (pathWord (grid S) p) = Some w"
proof -
  let ?E = "\<lparr>this = S, usedPos = used, blacklistedWords = bl, minLength = minLen,
             maxLength = maxLen\<rparr>"
  let ?start = "(startRow, startCol)"
  from res mem obtain cell uw where
    nu: "?start \<notin> used"
    and cell: "cellAt (grid S) startRow startCol = Some cell"
    and run: "dfs ?E startRow startCol (toUpperCase cell) [?start] {?start} [] = Inr uw"
    and result: "result = sortByLength uw"
    by (auto simp: findWordsDFS_def split: if_splits option.splits sum.splits)
  from mem result have in_uw: "(w, p) \<in> set uw" by (simp add: sortByLength_def)
  have node: "nodeOK ?E ?start startRow startCol (toUpperCase cell) [?start] {?start}"
    using nu cell by (simp add: nodeOK_def)
  have "\<forall>e \<in> set uw. validCandidate ?E ?start e"
    by (rule dfs_sound(1) [OF run node]) simp
  with in_uw show ?thesis by (auto simp: validCandidate_def)
qed

text \<open>
  A 2 by 3 grid of \<open>A\<close>s and \<open>B\<close>s with the words \<open>ABAB\<close>, \<open>ABA\<close>, \<open>ABBA\<close>
  and minimum length 3: \<open>ABA\<close> is discovered first and sorted last, the two words of
  length 4 keep their order of discovery.
\<close>

theorem findWordsDFS_sorted_by_discovery_witness:
  "findWordsDFS \<lparr>grid = [[''A'', ''B'', ''A''], [''B'', ''A'', ''B'']],
       wordSet = [''ABAB'', ''ABA'', ''ABBA''],
       prefixTree = JObj [(CHR ''A'', JObj [(CHR ''B'', JObj [(CHR ''A'',
                      JObj [(CHR ''B'', JObj [(CHR ''$'', JTrue)]), (CHR ''$'', JTrue)]),
                     (CHR ''B'', JObj [(CHR ''A'', JObj [(CHR ''$'', JTrue)])])])])],
       rows = 2, cols = 3\<rparr> 0 0 {} {} 3 15
     = Inr [(''ABAB'', [(0, 0), (0, 1), (0, 2), (1, 2)]),
            (''ABBA'', [(0, 0), (0, 1), (1, 0), (1, 1)]),
            (''ABA'', [(0, 0), (0, 1), (0, 2)])]
   \<and> firstOccurrences (filter (qualifies \<lparr>this = \<lparr>grid = [[''A'', ''B'', ''A''], [''B'', ''A'', ''B'']],
       wordSet = [''ABAB'', ''ABA'', ''ABBA''],
       prefixTree = JObj [(CHR ''A'', JObj [(CHR ''B'', JObj [(CHR ''A'',
                      JObj [(CHR ''B'', JObj [(CHR ''$'', JTrue)]), (CHR ''$'', JTrue)]),
                     (CHR ''B'', JObj [(CHR ''A'', JObj [(CHR ''$'', JTrue)])])])])],
       rows = 2, cols = 3\<rparr>, usedPos = {}, blacklistedWords = {}, minLength = 3, maxLength = 15\<rparr>)
        (map fst (visitedNodes \<lparr>grid = [[''A'', ''B'', ''A''], [''B'', ''A'', ''B'']],
       wordSet = [''ABAB'', ''ABA'', ''ABBA''],
       prefixTree = JObj [(CHR ''A'', JObj [(CHR ''B'', JObj [(CHR ''A'',
                      JObj [(CHR ''B'', JObj [(CHR ''$'', JTrue)]), (CHR ''$'', JTrue)]),
                     (CHR ''B'', JObj [(CHR ''A'', JObj [(CHR ''$'', JTrue)])])])])],
       rows = 2, cols = 3\<rparr> 0 0 {} {} 3 15)))
     = [''ABA'', ''ABAB'', ''ABBA'']
   \<and> filter (\<lambda>w. length w = 4) [''ABAB'', ''ABBA'', ''ABA'']
     = filter (\<lambda>w. length w = 4) [''ABA'', ''ABAB'', ''ABBA'']"
proof -
  let ?S = "\<lparr>grid = [[''A'', ''B'', ''A''], [''B'', ''A'', ''B'']],
       wordSet = [''ABAB'', ''ABA'', ''ABBA''],
       prefixTree = JObj [(CHR ''A'', JObj [(CHR ''B'', JObj [(CHR ''A'',
                      JObj [(CHR ''B'', JObj [(CHR ''$'', JTrue)]), (CHR ''$'', JTrue)]),
                     (CHR ''B'', JObj [(CHR ''A'', JObj [(CHR ''$'', JTrue)])])])])],
       rows = 2, cols = 3\<rparr>"
  have res: "findWordsDFS ?S 0 0 {} {} 3 15
     = Inr [(''ABAB'', [(0, 0), (0, 1), (0, 2), (1, 2)]),
            (''ABBA'', [(0, 0), (0, 1), (1, 0), (1, 1)]),
            (''ABA'', [(0, 0), (0, 1), (0, 2)])]"
    by code_simp
  have fo: "firstOccurrences (filter (qualifies \<lparr>this = ?S, usedPos = {}, blacklistedWords = {},
                minLength = 3, maxLength = 15\<rparr>)
              (map fst (visitedNodes ?S 0 0 {} {} 3 15)))
            = [''ABA'', ''ABAB'', ''ABBA'']"
    by code_simp
  from findWordsDFS_sorted_by_discovery [OF res] have
    "filter (\<lambda>w. length w = 4) (map fst [(''ABAB'', [(0, 0), (0, 1), (0, 2), (1, 2 :: int)] :: pos list),
            (''ABBA'', [(0, 0), (0, 1), (1, 0), (1, 1)]),
            (''ABA'', [(0, 0), (0, 1), (0, 2)])])
     = filter (\<lambda>w. length w = 4) (firstOccurrences (filter (qualifies \<lparr>this = ?S, usedPos = {},
                blacklistedWords = {}, minLength = 3, maxLength = 15\<rparr>)
              (map fst (visitedNodes ?S 0 0 {} {} 3 15))))"
    by blast
  with res fo show ?thesis by simp
qed

section \<open>Completeness of the search\<close>

lemma insertWord_obj: "insertWord t (l # rest) = Inr t' \<Longrightarrow> \<exists>kvs. t = JObj kvs"
  by (cases t) (auto split: option.splits sum.splits)

lemma insertWord_walk:
  "insertWord t w = Inr t' \<Longrightarrow> take n w = u \<Longrightarrow> walkPrefix t' u"
proof (induction w arbitrary: t t' n u)
  case Nil
  then show ?case by simp
next
  case (Cons l rest)
  show ?case
  proof (cases n)
    case 0
    with Cons.prems show ?thesis by simp
  next
    case (Suc m)
    with Cons.prems(2) have u: "u = l # take m rest" by simp
    from insertWord_obj [OF Cons.prems(1)] obtain kvs where t: "t = JObj kvs" by blast
    let ?kvs1 = "case map_of kvs l of None \<Rightarrow> mapSet l (JObj []) kvs | Some _ \<Rightarrow> kvs"
    from Cons.prems(1) t obtain child child' where
      c: "map_of ?kvs1 l = Some child" and ins: "insertWord child rest = Inr child'"
      and t': "t' = JObj (mapSet l child' ?kvs1)"
      by (auto split: option.splits sum.splits)
    from Cons.IH [OF ins refl] have "walkPrefix child' (take m rest)" .
    then show ?thesis by (simp add: u t' map_of_mapSet)
  qed
qed

lemma insertWord_keeps:
  "insertWord t w = Inr t' \<Longrightarrow> walkPrefix t u \<Longrightarrow> CHR ''$'' \<notin> set u \<Longrightarrow> walkPrefix t' u"
proof (induction w arbitrary: t t' u)
  case Nil
  show ?case
  proof (cases u)
    case Nil
    then show ?thesis by simp
  next
    case (Cons l u')
    with Nil.prems(3) have ne: "l \<noteq> CHR ''$''" by auto
    from Nil.prems(1) obtain kvs where "t = JObj kvs" "t' = JObj (mapSet (CHR ''$'') JTrue kvs)"
      by (cases t) auto
    with Nil.prems(2) Cons ne show ?thesis by (simp add: map_of_mapSet)
  qed
next
  case (Cons x rest)
  show ?case
  proof (cases u)
    case Nil
    then show ?thesis by simp
  next
    case (Cons l u')
    from insertWord_obj [OF Cons.prems(1)] obtain kvs where t: "t = JObj kvs" by blast
    let ?kvs1 = "case map_of kvs x of None \<Rightarrow> mapSet x (JObj []) kvs | Some _ \<Rightarrow> kvs"
    from Cons.prems(1) t obtain child child' where
      c: "map_of ?kvs1 x = Some child" and ins: "insertWord child rest = Inr child'"
      and t': "t' = JObj (mapSet x child' ?kvs1)"
      by (auto split: option.splits sum.splits)
    from Cons.prems(2) t Cons obtain c0 where c0: "map_of kvs l = Some c0" "walkPrefix c0 u'"
      by (auto split: option.splits)
    show ?thesis
    proof (cases "l = x")
      case True
      with c0 c have "child = c0" by simp
      with Cons.IH [OF ins, of u'] c0 Cons.prems(3) Cons have "walkPrefix child' u'" by simp
      with True show ?thesis by (simp add: Cons t' map_of_mapSet)
    next
      case False
      then have "map_of ?kvs1 l = map_of kvs l"
        by (simp add: map_of_mapSet split: option.splits)
      with False c0 show ?thesis by (simp add: Cons t' map_of_mapSet)
    qed
  qed
qed

lemma insertWords_keeps:
  "insertWords t ws = Inr t' \<Longrightarrow> walkPrefix t u \<Longrightarrow> CHR ''$'' \<notin> set u \<Longrightarrow> walkPrefix t' u"
proof (induction ws arbitrary: t)
  case Nil
  then show ?case by simp
next
  case (Cons w ws)
  from Cons.prems(1) obtain t1 where a: "insertWord t w = Inr t1" and b: "insertWords t1 ws = Inr t'"
    by (auto split: sum.splits)
  from Cons.IH [OF b insertWord_keeps [OF a Cons.prems(2,3)] Cons.prems(3)] show ?case .
qed

lemma insertWords_walk:
  "insertWords t ws = Inr t' \<Longrightarrow> w \<in> set ws \<Longrightarrow> CHR ''$'' \<notin> set w \<Longrightarrow> walkPrefix t' (take n w)"
proof (induction ws arbitrary: t)
  case Nil
  then show ?case by simp
next
  case (Cons x ws)
  from Cons.prems(1) obtain t1 where a: "insertWord t x = Inr t1" and b: "insertWords t1 ws = Inr t'"
    by (auto split: sum.splits)
  show ?case
  proof (cases "w = x")
    case True
    with a have "walkPrefix t1 (take n w)" by (auto intro: insertWord_walk)
    moreover have "CHR ''$'' \<notin> set (take n w)" using Cons.prems(3) by (auto dest: in_set_takeD)
    ultimately show ?thesis using insertWords_keeps [OF b] by blast
  next
    case False
    with Cons.prems(2) have "w \<in> set ws" by simp
    from Cons.IH [OF b this Cons.prems(3)] show ?thesis .
  qed
qed

lemma hasPrefix_complete:
  assumes "buildPrefixTree (wordSet S) = Inr (prefixTree S)"
    and "w \<in> set (wordSet S)" and "CHR ''$'' \<notin> set w"
  shows "hasPrefix S (take n w)"
  using insertWords_walk [of "JObj []" "wordSet S" "prefixTree S" w n] assms
  by (simp add: buildPrefixTree_def hasPrefix_def)

lemma visits_complete:
  "dfsVisits E row col w p v = Inr vs \<Longrightarrow> continues E row col w v rest wq
     \<Longrightarrow> (wq, p @ rest) \<in> set vs"
  "dfsDirsVisits E ds row col w p v = Inr vs
     \<Longrightarrow> c \<in> set (map (\<lambda>d. (row + fst d, col + snd d)) ds)
     \<Longrightarrow> \<not> skipCell E v (fst c) (snd c)
     \<Longrightarrow> cellAt (grid (this E)) (fst c) (snd c) = Some cell
     \<Longrightarrow> continues E (fst c) (snd c) (w @ toUpperCase cell) (insert c v) cs wq
     \<Longrightarrow> (wq, p @ c # cs) \<in> set vs"
proof (induct E row col w p v and E ds row col w p v
    arbitrary: vs rest wq and vs c cell cs wq rule: dfsVisits_dfsDirsVisits.induct)
  case (1 E row col w p v)
  show ?case
  proof (cases rest)
    case Nil
    with "1.prems" show ?thesis
      by (auto simp: dfsVisits.simps split: if_splits sum.splits)
  next
    case (Cons c cs)
    with "1.prems"(2) obtain cell where
      lt: "\<not> maxLength E \<le> int (length w)" and hp: "\<not> \<not> hasPrefix (this E) w"
      and c: "c \<in> set (map (\<lambda>d. (row + fst d, col + snd d)) directions)"
      and sk: "\<not> skipCell E v (fst c) (snd c)"
      and cell: "cellAt (grid (this E)) (fst c) (snd c) = Some cell"
      and co: "continues E (fst c) (snd c) (w @ toUpperCase cell) (insert c v) cs wq"
      by (auto split: option.splits)
    from "1.prems"(1) lt hp obtain vs' where
      run: "dfsDirsVisits E directions row col w p v = Inr vs'" and vs: "vs = (w, p) # vs'"
      by (auto simp: dfsVisits.simps split: sum.splits)
    from "1.hyps" [OF lt hp run c sk cell co] show ?thesis by (simp add: vs Cons)
  qed
next
  case (2 E row col w p v)
  then show ?case by simp
next
  case (3 E d ds row col w p v)
  let ?r = "row + fst d" and ?c = "col + snd d"
  show ?case
  proof (cases "skipCell E v ?r ?c")
    case True
    with "3.prems"(1) have run: "dfsDirsVisits E ds row col w p v = Inr vs"
      by (simp add: dfsDirsVisits.simps Let_def)
    from True "3.prems"(3) have "c \<noteq> (?r, ?c)" by auto
    with "3.prems"(2) have "c \<in> set (map (\<lambda>d. (row + fst d, col + snd d)) ds)" by auto
    from "3.hyps"(1) [OF refl refl True run this "3.prems"(3,4,5)] show ?thesis .
  next
    case False
    with "3.prems"(1) obtain cell0 vs1 vs2 where
      cell0: "cellAt (grid (this E)) ?r ?c = Some cell0"
      and sub: "dfsVisits E ?r ?c (w @ toUpperCase cell0) (p @ [(?r, ?c)]) (insert (?r, ?c) v)
                = Inr vs1"
      and rest: "dfsDirsVisits E ds row col w p v = Inr vs2"
      and vs: "vs = vs1 @ vs2"
      by (auto simp: dfsDirsVisits.simps Let_def split: option.splits sum.splits)
    show ?thesis
    proof (cases "c = (?r, ?c)")
      case True
      with cell0 "3.prems"(4) have "cell = cell0" by simp
      with True "3.prems"(5)
      have "continues E ?r ?c (w @ toUpperCase cell0) (insert (?r, ?c) v) cs wq" by simp
      from "3.hyps"(2) [OF refl refl False cell0 sub this] show ?thesis
        by (simp add: vs True)
    next
      case ne: False
      with "3.prems"(2) have "c \<in> set (map (\<lambda>d. (row + fst d, col + snd d)) ds)" by auto
      from "3.hyps"(3) [OF refl refl False cell0 sub rest this "3.prems"(3,4,5)]
      show ?thesis by (simp add: vs)
    qed
  qed
qed

lemma adjacent_direction:
  assumes "adjacent8 (row, col) c"
  shows "c \<in> set (map (\<lambda>d. (row + fst d, col + snd d)) directions)"
proof -
  obtain r' c' where c: "c = (r', c')" by (cases c)
  let ?dr = "r' - row" and ?dc = "c' - col"
  from assms c have a: "\<bar>?dr\<bar> \<le> 1" "\<bar>?dc\<bar> \<le> 1" "\<not> (?dr = 0 \<and> ?dc = 0)"
    by (auto simp: adjacent8_def)
  from a(1) have dr: "?dr = -1 \<or> ?dr = 0 \<or> ?dr = 1" by linarith
  from a(2) have dc: "?dc = -1 \<or> ?dc = 0 \<or> ?dc = 1" by linarith
  have "(?dr, ?dc) \<in> set directions"
    using dr dc a(3) unfolding directions_def by fastforce
  then have "(\<lambda>d. (row + fst d, col + snd d)) (?dr, ?dc)
             \<in> (\<lambda>d. (row + fst d, col + snd d)) ` set directions"
    by (rule imageI)
  then show ?thesis by (simp add: c)
qed


lemma pathWord_append:
  "pathWord g (a @ b) =
     (case pathWord g a of
        None \<Rightarrow> None
      | Some x \<Rightarrow> (case pathWord g b of None \<Rightarrow> None | Some y \<Rightarrow> Some (x @ y)))"
  by (induction a) (auto split: option.splits)

lemma path8_last_step: "p \<noteq> [] \<Longrightarrow> path8 (p @ c # cs) \<Longrightarrow> adjacent8 (last p) c"
  by (induction p rule: path8.induct) auto

lemma path_continues:
  assumes single: "singleLetterCells (grid (this E))"
    and pref: "\<And>n. hasPrefix (this E) (take n wq)"
    and len: "int (length wq) \<le> maxLength E"
  shows "p \<noteq> [] \<Longrightarrow> last p = (row, col) \<Longrightarrow> v = set p
     \<Longrightarrow> path8 (p @ rest) \<Longrightarrow> distinct (p @ rest)
     \<Longrightarrow> set rest \<inter> usedPos E = {}
     \<Longrightarrow> \<forall>c \<in> set rest. 0 \<le> fst c \<and> fst c < rows (this E) \<and> 0 \<le> snd c \<and> snd c < cols (this E)
     \<Longrightarrow> map_option toUpperCase (pathWord (grid (this E)) p) = Some w
     \<Longrightarrow> map_option toUpperCase (pathWord (grid (this E)) (p @ rest)) = Some wq
     \<Longrightarrow> continues E row col w v rest wq"
proof (induction rest arbitrary: p row col v w)
  case Nil
  from Nil.prems(8,9) show ?case by auto
next
  case (Cons c cs)
  let ?g = "grid (this E)"
  let ?p' = "p @ [c]"
  from Cons.prems(9) obtain full where full: "pathWord ?g (p @ c # cs) = Some full"
    "wq = toUpperCase full"
    by (cases "pathWord ?g (p @ c # cs)") auto
  from full(1) obtain w0 cell wcs where
    w0: "pathWord ?g p = Some w0" and cell: "cellAt ?g (fst c) (snd c) = Some cell"
    and wcs: "pathWord ?g cs = Some wcs" and f: "full = w0 @ cell @ wcs"
    by (auto simp: pathWord_append split: option.splits)
  from Cons.prems(8) w0 have w: "w = toUpperCase w0" by simp
  have wq: "wq = w @ toUpperCase cell @ toUpperCase wcs"
    by (simp add: full(2) f w toUpperCase_append)
  have lw: "length p = length w" by (rule spelled_length [OF single Cons.prems(8)])
  have lq: "length (p @ c # cs) = length wq" by (rule spelled_length [OF single Cons.prems(9)])
  from lw lq len have lt: "int (length w) < maxLength E" by simp
  have "take (length w) wq = w" by (simp add: wq)
  with pref [of "length w"] have hp: "hasPrefix (this E) w" by simp
  from path8_last_step [OF Cons.prems(1,4)] Cons.prems(2)
  have "adjacent8 (row, col) c" by simp
  then have dir: "c \<in> set (map (\<lambda>d. (row + fst d, col + snd d)) directions)"
    by (rule adjacent_direction)
  from Cons.prems(3,5,6,7) have sk: "\<not> skipCell E v (fst c) (snd c)"
    by (auto simp: skipCell_def)
  have sp': "map_option toUpperCase (pathWord ?g ?p') = Some (w @ toUpperCase cell)"
    using w0 cell w by (simp add: pathWord_snoc toUpperCase_append)
  have "continues E (fst c) (snd c) (w @ toUpperCase cell) (insert c v) cs wq"
  proof (rule Cons.IH [of ?p'])
    show "?p' \<noteq> []" by simp
    show "last ?p' = (fst c, snd c)" by simp
    show "insert c v = set ?p'" using Cons.prems(3) by auto
    show "path8 (?p' @ cs)" using Cons.prems(4) by simp
    show "distinct (?p' @ cs)" using Cons.prems(5) by simp
    show "set cs \<inter> usedPos E = {}" using Cons.prems(6) by auto
    show "\<forall>c \<in> set cs. 0 \<le> fst c \<and> fst c < rows (this E) \<and> 0 \<le> snd c \<and> snd c < cols (this E)"
      using Cons.prems(7) by simp
    show "map_option toUpperCase (pathWord ?g ?p') = Some (w @ toUpperCase cell)" by (rule sp')
    show "map_option toUpperCase (pathWord ?g (?p' @ cs)) = Some wq" using Cons.prems(9) by simp
  qed
  with lt hp dir sk cell show ?case by simp
qed

lemma findWordsDFS_visits_complete:
  assumes res: "findWordsDFS S startRow startCol used bl minLen maxLen = Inr result"
    and single: "singleLetterCells (grid S)"
    and trie: "buildPrefixTree (wordSet S) = Inr (prefixTree S)"
    and dict: "w \<in> set (wordSet S)" and dollar: "CHR ''$'' \<notin> set w"
    and len: "int (length w) \<le> maxLen"
    and q: "qualifyingPath S (startRow, startCol) used w q"
  shows "(w, q) \<in> set (visitedNodes S startRow startCol used bl minLen maxLen)"
proof -
  let ?E = "\<lparr>this = S, usedPos = used, blacklistedWords = bl, minLength = minLen,
             maxLength = maxLen\<rparr>"
  let ?start = "(startRow, startCol)"
  from q obtain rest where qq: "q = [?start] @ rest"
    by (cases q) (auto simp: qualifyingPath_def)
  from q have inb: "\<not> (startRow < 0 \<or> startRow \<ge> rows S \<or> startCol < 0 \<or> startCol \<ge> cols S)"
    and nu: "?start \<notin> used"
    unfolding qualifyingPath_def qq by auto
  from q obtain full where full: "pathWord (grid S) q = Some full"
    by (cases "pathWord (grid S) q") (auto simp: qualifyingPath_def)
  then obtain cell where cell: "cellAt (grid S) startRow startCol = Some cell"
    unfolding qq by (auto split: option.splits)
  from res inb nu cell obtain uw where
    run: "dfs ?E startRow startCol (toUpperCase cell) [?start] {?start} [] = Inr uw"
    by (auto simp: findWordsDFS_def split: sum.splits)
  then obtain vs where
    vs: "dfsVisits ?E startRow startCol (toUpperCase cell) [?start] {?start} = Inr vs"
    by (auto simp: dfs_visits(1) split: sum.splits)
  have vn: "visitedNodes S startRow startCol used bl minLen maxLen = vs"
    using inb nu cell vs by (auto simp: visitedNodes_def)
  have pref: "hasPrefix (this ?E) (take n w)" for n
    using hasPrefix_complete [OF trie dict dollar] by simp
  have "continues ?E startRow startCol (toUpperCase cell) {?start} rest w"
  proof (rule path_continues [of ?E w "[?start]"])
    show "singleLetterCells (grid (this ?E))" using single by simp
    show "\<And>n. hasPrefix (this ?E) (take n w)" by (rule pref)
    show "int (length w) \<le> maxLength ?E" using len by simp
    show "[?start] \<noteq> []" by simp
    show "last [?start] = (startRow, startCol)" by simp
    show "{?start} = set [?start]" by simp
    show "path8 ([?start] @ rest)" using q unfolding qualifyingPath_def qq by simp
    show "distinct ([?start] @ rest)" using q unfolding qualifyingPath_def qq by simp
    show "set rest \<inter> usedPos ?E = {}" using q unfolding qualifyingPath_def qq by auto
    show "\<forall>c \<in> set rest. 0 \<le> fst c \<and> fst c < rows (this ?E) \<and> 0 \<le> snd c
            \<and> snd c < cols (this ?E)"
      using q unfolding qualifyingPath_def qq by simp
    show "map_option toUpperCase (pathWord (grid (this ?E)) [?start]) = Some (toUpperCase cell)"
      using cell by simp
    show "map_option toUpperCase (pathWord (grid (this ?E)) ([?start] @ rest)) = Some w"
      using q unfolding qualifyingPath_def qq by simp
  qed
  from visits_complete(1) [OF vs this] show ?thesis by (simp add: vn qq)
qed

lemma findWordsDFS_length:
  assumes res: "findWordsDFS S startRow startCol used bl minLen maxLen = Inr result"
    and mem: "(w, p) \<in> set result"
    and single: "singleLetterCells (grid S)" and one: "1 \<le> maxLen"
  shows "int (length w) \<le> maxLen"
proof -
  let ?E = "\<lparr>this = S, usedPos = used, blacklistedWords = bl, minLength = minLen,
             maxLength = maxLen\<rparr>"
  let ?start = "(startRow, startCol)"
  from res mem obtain cell uw where
    cell: "cellAt (grid S) startRow startCol = Some cell"
    and run: "dfs ?E startRow startCol (toUpperCase cell) [?start] {?start} [] = Inr uw"
    and result: "result = sortByLength uw"
    by (auto simp: findWordsDFS_def split: if_splits option.splits sum.splits)
  from mem result have in_uw: "(w, p) \<in> set uw" by (simp add: sortByLength_def)
  from cellAt_mem [OF cell] single have "length cell = 1"
    by (auto simp: singleLetterCells_def)
  with one have "int (length (toUpperCase cell)) \<le> maxLength ?E"
    by (simp add: length_toUpperCase)
  from dfs_length(1) [OF run _ this] single in_uw show ?thesis by auto
qed

text \<open>
  Claim C6: in a result of \<open>findWordsDFS\<close> each word appears once, and the path returned
  for a word is the first of maximum length among the paths on which the search met the
  word, in the order of the visits, which follows the fixed neighbour order (the stored
  path is replaced only by a strictly longer one). On a grid of single letters no
  qualifying path for the word is longer than the returned one; and when moreover
  \<open>maxLen\<close> is at least 1, the trie is the one built from the word set and the word has
  no \<open>$\<close>, the search meets the word on every qualifying path, so the returned path is
  the first of maximum length among all of them.
\<close>

theorem findWordsDFS_first_longest_path:
  assumes res: "findWordsDFS S startRow startCol used bl minLen maxLen = Inr result"
    and mem: "(w, p) \<in> set result"
  shows "distinct (map fst result)
         \<and> firstLongest (map snd (filter (\<lambda>e. fst e = w)
                 (visitedNodes S startRow startCol used bl minLen maxLen))) p
         \<and> (singleLetterCells (grid S) \<longrightarrow>
              (\<forall>q. qualifyingPath S (startRow, startCol) used w q \<longrightarrow> length q \<le> length p))
         \<and> (singleLetterCells (grid S) \<and> 1 \<le> maxLen
              \<and> buildPrefixTree (wordSet S) = Inr (prefixTree S) \<and> CHR ''$'' \<notin> set w \<longrightarrow>
              (\<forall>q. qualifyingPath S (startRow, startCol) used w q \<longrightarrow>
                 q \<in> set (map snd (filter (\<lambda>e. fst e = w)
                        (visitedNodes S startRow startCol used bl minLen maxLen)))))"
proof -
  let ?E = "\<lparr>this = S, usedPos = used, blacklistedWords = bl, minLength = minLen,
             maxLength = maxLen\<rparr>"
  let ?vs = "visitedNodes S startRow startCol used bl minLen maxLen"
  let ?uw = "foldl (recordStep ?E) [] ?vs"
  let ?f = "\<lambda>e :: string \<times> pos list. - int (length (fst e))"
  have r: "result = sort_key ?f ?uw"
    using findWordsDFS_visits [OF res] by (simp add: sortByLength_def)
  have duw: "distinct (map fst ?uw)"
    by (simp only: keys_of_visits distinct_firstOccurrences)
  then have "distinct ?uw" and inj: "inj_on fst (set ?uw)" by (simp_all add: distinct_map)
  then have d: "distinct (map fst result)" unfolding r by (simp add: distinct_map)
  from mem have in_uw: "(w, p) \<in> set ?uw" unfolding r by simp
  with duw have look: "map_of ?uw w = Some p" by simp
  from in_uw have "w \<in> set (map fst ?uw)" by force
  then have q: "qualifies ?E w"
    by (simp only: keys_of_visits set_firstOccurrences) simp
  let ?ps = "map snd (filter (\<lambda>e. fst e = w) ?vs)"
  from look have f: "foldl stepOpt None ?ps = Some p"
    by (simp add: map_of_fold [OF q])
  from foldl_stepOpt [OF foldl_stepOpt_Nil [OF f]] f have fl: "firstLongest ?ps p" by auto
  have len: "length q \<le> length p"
    if single: "singleLetterCells (grid S)"
      and sp: "qualifyingPath S (startRow, startCol) used w q" for q
  proof -
    from sp have "map_option toUpperCase (pathWord (grid S) q) = Some w"
      by (simp add: qualifyingPath_def)
    from spelled_length [OF single this]
      spelled_length [OF single findWordsDFS_spelled [OF res mem]] show ?thesis by simp
  qed
  have all: "q \<in> set ?ps"
    if single: "singleLetterCells (grid S)" and one: "1 \<le> maxLen"
      and trie: "buildPrefixTree (wordSet S) = Inr (prefixTree S)"
      and dollar: "CHR ''$'' \<notin> set w"
      and sp: "qualifyingPath S (startRow, startCol) used w q" for q
  proof -
    from q have dict: "w \<in> set (wordSet S)" by (simp add: qualifies_def)
    have "(w, q) \<in> set ?vs"
      by (rule findWordsDFS_visits_complete
            [OF res single trie dict dollar findWordsDFS_length [OF res mem single one] sp])
    then show ?thesis by force
  qed
  from d fl len all show ?thesis by blast
qed

text \<open>
  On the 2 by 3 grid of \<open>A\<close>s and \<open>B\<close>s the search meets \<open>ABAB\<close> on five paths
  and returns the first; the last of the five is a qualifying path.
\<close>

theorem findWordsDFS_first_longest_path_witness:
  "findWordsDFS \<lparr>grid = [[''A'', ''B'', ''A''], [''B'', ''A'', ''B'']],
       wordSet = [''ABAB'', ''ABA'', ''ABBA''],
       prefixTree = JObj [(CHR ''A'', JObj [(CHR ''B'', JObj [(CHR ''A'',
                      JObj [(CHR ''B'', JObj [(CHR ''$'', JTrue)]), (CHR ''$'', JTrue)]),
                     (CHR ''B'', JObj [(CHR ''A'', JObj [(CHR ''$'', JTrue)])])])])],
       rows = 2, cols = 3\<rparr> 0 0 {} {} 3 15
     = Inr [(''ABAB'', [(0, 0), (0, 1), (0, 2), (1, 2)]),
            (''ABBA'', [(0, 0), (0, 1), (1, 0), (1, 1)]),
            (''ABA'', [(0, 0), (0, 1), (0, 2)])]
   \<and> firstLongest
        [[(0, 0), (0, 1), (0, 2), (1, 2)], [(0, 0), (0, 1), (1, 1), (1, 0)],
         [(0, 0), (0, 1), (1, 1), (1, 2)], [(0, 0), (1, 0), (1, 1), (0, 1)],
         [(0, 0), (1, 0), (1, 1), (1, 2)]]
        [(0, 0), (0, 1), (0, 2), (1, 2)]
   \<and> singleLetterCells [[''A'', ''B'', ''A''], [''B'', ''A'', ''B'']]
   \<and> length [(0, 0), (1, 0), (1, 1), (1, 2 :: int)] \<le> length [(0, 0), (0, 1), (0, 2), (1, 2 :: int)]
   \<and> [(0, 0), (1, 0), (1, 1), (1, 2)]
       \<in> set [[(0, 0), (0, 1), (0, 2), (1, 2)], [(0, 0), (0, 1), (1, 1), (1, 0)],
         [(0, 0), (0, 1), (1, 1), (1, 2)], [(0, 0), (1, 0), (1, 1), (0, 1)],
         [(0, 0), (1, 0), (1, 1), (1, 2 :: int)]]"
proof -
  let ?S = "\<lparr>grid = [[''A'', ''B'', ''A''], [''B'', ''A'', ''B'']],
       wordSet = [''ABAB'', ''ABA'', ''ABBA''],
       prefixTree = JObj [(CHR ''A'', JObj [(CHR ''B'', JObj [(CHR ''A'',
                      JObj [(CHR ''B'', JObj [(CHR ''$'', JTrue)]), (CHR ''$'', JTrue)]),
                     (CHR ''B'', JObj [(CHR ''A'', JObj [(CHR ''$'', JTrue)])])])])],
       rows = 2, cols = 3\<rparr>"
  let ?p = "[(0, 0), (0, 1), (0, 2), (1, 2)] :: pos list"
  let ?q = "[(0, 0), (1, 0), (1, 1), (1, 2)] :: pos list"
  let ?result = "[(''ABAB'', ?p), (''ABBA'', [(0, 0), (0, 1), (1, 0), (1, 1)]),
            (''ABA'', [(0, 0), (0, 1), (0, 2)])]"
  have res: "findWordsDFS ?S 0 0 {} {} 3 15 = Inr ?result"
    by code_simp
  have mem: "(''ABAB'', ?p) \<in> set ?result" by simp
  have vis: "map snd (filter (\<lambda>e. fst e = ''ABAB'') (visitedNodes ?S 0 0 {} {} 3 15))
     = [[(0, 0), (0, 1), (0, 2), (1, 2)], [(0, 0), (0, 1), (1, 1), (1, 0)],
         [(0, 0), (0, 1), (1, 1), (1, 2)], [(0, 0), (1, 0), (1, 1), (0, 1)],
         [(0, 0), (1, 0), (1, 1), (1, 2)]]"
    by code_simp
  have single: "singleLetterCells (grid ?S)" by code_simp
  have one: "(1 :: int) \<le> 15" by simp
  have trie: "buildPrefixTree (wordSet ?S) = Inr (prefixTree ?S)" by code_simp
  have dollar: "CHR ''$'' \<notin> set ''ABAB''" by code_simp
  have q: "qualifyingPath ?S (0, 0) {} ''ABAB'' ?q" by code_simp
  from findWordsDFS_first_longest_path [OF res mem] single one trie dollar q
  have "firstLongest (map snd (filter (\<lambda>e. fst e = ''ABAB'') (visitedNodes ?S 0 0 {} {} 3 15))) ?p"
    and "length ?q \<le> length ?p"
    and "?q \<in> set (map snd (filter (\<lambda>e. fst e = ''ABAB'') (visitedNodes ?S 0 0 {} {} 3 15)))"
    by blast+
  with res vis single show ?thesis by simp
qed


end
